theory Spec2Isabelle
  imports Main
begin

section \<open>Python values and errors\<close>

text \<open>
  The arguments that reach the accessors of \<^verbatim>\<open>AlarmItem\<close> are untyped Python values.
  The model keeps the shapes the code distinguishes: \<^verbatim>\<open>None\<close>, booleans, integers,
  strings, tuples and lists. The code takes \<^verbatim>\<open>len\<close> of a sequence, iterates over it and
  converts it with \<^verbatim>\<open>tuple\<close>, which treat a tuple and a list alike; the operator
  \<^verbatim>\<open>%\<close> of its error reports does not. Python 3 is assumed throughout. Values of other
  types (floats, dictionaries, instances of other classes) are outside the model.
\<close>

datatype pyval =
  PyNone | PyBool bool | PyInt int | PyStr string | PyTuple "pyval list" | PyList "pyval list"

datatype py_error = TypeError | IndexError

text \<open>
  An operation that may raise returns \<open>Inl\<close> of the exception or \<open>Inr\<close> of its result;
  \<open>and_then\<close> runs the next statement on the result and lets an exception pass.
\<close>

definition and_then :: "py_error + 'a \<Rightarrow> ('a \<Rightarrow> py_error + 'b) \<Rightarrow> py_error + 'b" where
  "and_then r f = (case r of Inl e \<Rightarrow> Inl e | Inr x \<Rightarrow> f x)"

text \<open>
  Modelled from the spec: \<^verbatim>\<open>int_type\<close> and \<^verbatim>\<open>bool_type\<close> come from the module
  \<^verbatim>\<open>Py23Compatibility\<close>, which is not among the sources. The data model asks for integer
  hours, minutes, identities and timestamps and for boolean flags, so they are taken to be
  Python's \<^verbatim>\<open>int\<close> and \<^verbatim>\<open>bool\<close>. In Python \<^verbatim>\<open>bool\<close> is a subclass of \<^verbatim>\<open>int\<close>:
  \<^verbatim>\<open>isinstance(True, int)\<close> holds and \<^verbatim>\<open>True\<close> counts as \<^verbatim>\<open>1\<close> in arithmetic and in
  comparisons. \<open>as_int v\<close> is \<open>Some n\<close> exactly when \<^verbatim>\<open>isinstance(v, int_type)\<close>, with
  \<open>n\<close> the number the value stands for.
\<close>

definition as_int :: "pyval \<Rightarrow> int option" where
  "as_int v = (case v of PyInt n \<Rightarrow> Some n | PyBool b \<Rightarrow> Some (if b then 1 else 0) | _ \<Rightarrow> None)"

definition is_int_type :: "pyval \<Rightarrow> bool" where
  "is_int_type v = (as_int v \<noteq> None)"

definition is_bool_type :: "pyval \<Rightarrow> bool" where
  "is_bool_type v = (case v of PyBool _ \<Rightarrow> True | _ \<Rightarrow> False)"

text \<open>
  Python's \<^verbatim>\<open>==\<close> between a stored integer, a stored boolean or a stored string and any
  value.
\<close>

definition py_eq_int :: "int \<Rightarrow> pyval \<Rightarrow> bool" where
  "py_eq_int n v = (as_int v = Some n)"

definition py_eq_bool :: "bool \<Rightarrow> pyval \<Rightarrow> bool" where
  "py_eq_bool b v = py_eq_int (if b then 1 else 0) v"

definition py_eq_opt_int :: "int option \<Rightarrow> pyval \<Rightarrow> bool" where
  "py_eq_opt_int s v = (case s of None \<Rightarrow> v = PyNone | Some n \<Rightarrow> py_eq_int n v)"

definition py_eq_str :: "string \<Rightarrow> pyval \<Rightarrow> bool" where
  "py_eq_str s v = (v = PyStr s)"

text \<open>\<^verbatim>\<open>len(v)\<close> and \<^verbatim>\<open>tuple(v)\<close>: defined on sequences and strings, a TypeError otherwise.\<close>

definition py_len :: "pyval \<Rightarrow> py_error + nat" where
  "py_len v = (case v of PyTuple xs \<Rightarrow> Inr (length xs) | PyList xs \<Rightarrow> Inr (length xs)
                | PyStr s \<Rightarrow> Inr (length s) | _ \<Rightarrow> Inl TypeError)"

definition py_tuple :: "pyval \<Rightarrow> py_error + pyval list" where
  "py_tuple v = (case v of PyTuple xs \<Rightarrow> Inr xs | PyList xs \<Rightarrow> Inr xs
                  | PyStr s \<Rightarrow> Inr (map (\<lambda>c. PyStr [c]) s) | _ \<Rightarrow> Inl TypeError)"

text \<open>\<^verbatim>\<open>xs[i]\<close> on a tuple: a negative index counts from the end, out of range raises.\<close>

definition py_getitem :: "'a list \<Rightarrow> int \<Rightarrow> py_error + 'a" where
  "py_getitem xs i =
     (if 0 \<le> i \<and> i < int (length xs) then Inr (xs ! nat i)
      else if i < 0 \<and> - int (length xs) \<le> i then Inr (xs ! nat (int (length xs) + i))
      else Inl IndexError)"

subsection \<open>Conversion to a string\<close>

text \<open>An integer in decimal, as \<^verbatim>\<open>str\<close>, \<^verbatim>\<open>'%s'\<close> and \<^verbatim>\<open>'%d'\<close> print it, and with \<^verbatim>\<open>'%+d'\<close>.\<close>

fun digits :: "nat \<Rightarrow> string" where
  "digits n = (if n < 10 then [''0123456789'' ! n]
               else digits (n div 10) @ [''0123456789'' ! (n mod 10)])"

declare digits.simps [simp del]

definition fmt_d :: "int \<Rightarrow> string" where
  "fmt_d n = (if n < 0 then ''-'' @ digits (nat (- n)) else digits (nat n))"

definition fmt_plus_d :: "int \<Rightarrow> string" where
  "fmt_plus_d n = (if n < 0 then ''-'' @ digits (nat (- n)) else ''+'' @ digits (nat n))"

definition fmt_s_id :: "int option \<Rightarrow> string" where
  "fmt_s_id i = (case i of None \<Rightarrow> ''None'' | Some n \<Rightarrow> fmt_d n)"

text \<open>
  \<^verbatim>\<open>repr\<close> of a string, with a character taken as the code point below 256 of its number:
  the quote is \<^verbatim>\<open>'\<close> unless the string holds a \<^verbatim>\<open>'\<close> and no \<^verbatim>\<open>"\<close>; the backslash and
  the quote are escaped, line feed, carriage return and tab have their letters, and any other
  character that is not printable is written \<^verbatim>\<open>\xhh\<close>.
\<close>

definition printable :: "char \<Rightarrow> bool" where
  "printable c =
     (let n = (of_char c :: nat) in (32 \<le> n \<and> n \<le> 126) \<or> (161 \<le> n \<and> n \<noteq> 173))"

definition hex_digit :: "nat \<Rightarrow> char" where
  "hex_digit n = ''0123456789abcdef'' ! n"

definition escaped :: "char \<Rightarrow> char \<Rightarrow> string" where
  "escaped quote c =
     (if c = CHR 0x5C \<or> c = quote then [CHR 0x5C, c]
      else if c = CHR 0x0A then [CHR 0x5C, CHR ''n'']
      else if c = CHR 0x0D then [CHR 0x5C, CHR ''r'']
      else if c = CHR 0x09 then [CHR 0x5C, CHR ''t'']
      else if printable c then [c]
      else [CHR 0x5C, CHR ''x'', hex_digit (of_char c div 16), hex_digit (of_char c mod 16)])"

definition str_repr :: "string \<Rightarrow> string" where
  "str_repr s =
     (let quote = (if CHR 0x27 \<in> set s \<and> CHR 0x22 \<notin> set s then CHR 0x22 else CHR 0x27)
      in [quote] @ concat (map (escaped quote) s) @ [quote])"

fun comma_join :: "string list \<Rightarrow> string" where
  "comma_join [] = []"
| "comma_join [s] = s"
| "comma_join (s # t # ts) = s @ '', '' @ comma_join (t # ts)"

text \<open>\<^verbatim>\<open>repr(v)\<close> and \<^verbatim>\<open>str(v)\<close>; they differ on a string only.\<close>

fun py_repr :: "pyval \<Rightarrow> string" where
  "py_repr PyNone = ''None''"
| "py_repr (PyBool b) = (if b then ''True'' else ''False'')"
| "py_repr (PyInt n) = fmt_d n"
| "py_repr (PyStr s) = str_repr s"
| "py_repr (PyTuple xs) =
     ''('' @ comma_join (map py_repr xs) @ (if length xs = 1 then '',)'' else '')'')"
| "py_repr (PyList xs) = ''['' @ comma_join (map py_repr xs) @ '']''"

definition py_str :: "pyval \<Rightarrow> string" where
  "py_str v = (case v of PyStr s \<Rightarrow> s | _ \<Rightarrow> py_repr v)"

text \<open>
  \<^verbatim>\<open>'...%s!' % v\<close>, the one conversion of the error reports; the result here is what
  \<^verbatim>\<open>%s\<close> stands for. A tuple on the right of \<^verbatim>\<open>%\<close> is the tuple of the arguments, so it
  has to hold exactly one value: any other tuple raises a TypeError. Every other value is the
  single argument.
\<close>

definition percent_s :: "pyval \<Rightarrow> py_error + string" where
  "percent_s v =
     (case v of
        PyTuple xs \<Rightarrow> (case xs of [x] \<Rightarrow> Inr (py_str x) | _ \<Rightarrow> Inl TypeError)
      | _ \<Rightarrow> Inr (py_str v))"

text \<open>
  \<^verbatim>\<open>print('ERROR: ...%s!' % v, file=sys.stderr)\<close> in a method that goes on with the state
  \<open>a\<close>: the message is built first, which may raise; the standard error stream is not part
  of the model.
\<close>

definition report :: "pyval \<Rightarrow> 'a \<Rightarrow> py_error + 'a" where
  "report v a = (case percent_s v of Inl e \<Rightarrow> Inl e | Inr message \<Rightarrow> Inr a)"

section \<open>AlarmItem\<close>

record AlarmItem =
  alarm_id :: "int option"
  hour :: int
  minute :: int
  enabled :: bool
  monday :: bool
  tuesday :: bool
  wednesday :: bool
  thursday :: bool
  friday :: bool
  saturday :: bool
  sunday :: bool
  label :: string
  timestamp :: "int option"
  station_id :: "int option"

text \<open>
  The field \<open>alarm_id\<close> is the property \<^verbatim>\<open>id_\<close>. A boolean that passes an
  \<^verbatim>\<open>int_type\<close> check is stored as the integer it stands for.
\<close>

subsection \<open>Accessors\<close>

definition set_id :: "pyval \<Rightarrow> AlarmItem \<Rightarrow> py_error + AlarmItem" where
  "set_id new_id a =
     (case as_int new_id of
        Some n \<Rightarrow> if n \<ge> 0 then Inr (a\<lparr>alarm_id := Some n\<rparr>) else report new_id a
      | None \<Rightarrow> report new_id a)"

definition set_enabled :: "pyval \<Rightarrow> AlarmItem \<Rightarrow> py_error + AlarmItem" where
  "set_enabled new_enabled a =
     (case new_enabled of PyBool b \<Rightarrow> Inr (a\<lparr>enabled := b\<rparr>) | _ \<Rightarrow> report new_enabled a)"

definition set_minute :: "pyval \<Rightarrow> AlarmItem \<Rightarrow> py_error + AlarmItem" where
  "set_minute new_minute a =
     (case as_int new_minute of
        Some n \<Rightarrow> if 0 \<le> n \<and> n < 60 then Inr (a\<lparr>minute := n\<rparr>) else report new_minute a
      | None \<Rightarrow> report new_minute a)"

definition set_hour :: "pyval \<Rightarrow> AlarmItem \<Rightarrow> py_error + AlarmItem" where
  "set_hour new_hour a =
     (case as_int new_hour of
        Some n \<Rightarrow> if 0 \<le> n \<and> n < 24 then Inr (a\<lparr>hour := n\<rparr>) else report new_hour a
      | None \<Rightarrow> report new_hour a)"

text \<open>
  \<^verbatim>\<open>__set_label\<close> stores \<^verbatim>\<open>str(new_label)\<close>. On the values of this model \<^verbatim>\<open>str\<close> never
  raises, so the \<^verbatim>\<open>except\<close> branch is not reached.
\<close>

definition set_label :: "pyval \<Rightarrow> AlarmItem \<Rightarrow> py_error + AlarmItem" where
  "set_label new_label a = Inr (a\<lparr>label := py_str new_label\<rparr>)"

definition set_timestamp :: "pyval \<Rightarrow> AlarmItem \<Rightarrow> py_error + AlarmItem" where
  "set_timestamp new_timestamp a =
     (case as_int new_timestamp of
        Some n \<Rightarrow> if n \<ge> 0 then Inr (a\<lparr>timestamp := Some n\<rparr>) else report new_timestamp a
      | None \<Rightarrow> report new_timestamp a)"

definition set_station_id :: "pyval \<Rightarrow> AlarmItem \<Rightarrow> py_error + AlarmItem" where
  "set_station_id new_station_id a =
     (case as_int new_station_id of
        Some n \<Rightarrow> if n \<ge> 0 then Inr (a\<lparr>station_id := Some n\<rparr>) else report new_station_id a
      | None \<Rightarrow> report new_station_id a)"

definition repeat :: "AlarmItem \<Rightarrow> bool list" where
  "repeat a = [monday a, tuesday a, wednesday a, thursday a, friday a, saturday a, sunday a]"

definition the_bool :: "pyval \<Rightarrow> bool" where
  "the_bool v = (case v of PyBool b \<Rightarrow> b | _ \<Rightarrow> False)"

text \<open>
  \<^verbatim>\<open>__set_repeat\<close>: \<^verbatim>\<open>len\<close> raises on a value without a length; a sequence of seven
  booleans is copied into the seven flags; anything else is reported, with a fixed message,
  and ignored.
\<close>

definition set_repeat :: "pyval \<Rightarrow> AlarmItem \<Rightarrow> py_error + AlarmItem" where
  "set_repeat new_repeat a =
     (case py_len new_repeat of
        Inl e \<Rightarrow> Inl e
      | Inr n \<Rightarrow>
          if n = 7 then
            (case py_tuple new_repeat of
               Inl e \<Rightarrow> Inl e
             | Inr ds \<Rightarrow>
                 if list_all is_bool_type ds then
                   Inr (a\<lparr>monday := the_bool (ds ! 0), tuesday := the_bool (ds ! 1),
                          wednesday := the_bool (ds ! 2), thursday := the_bool (ds ! 3),
                          friday := the_bool (ds ! 4), saturday := the_bool (ds ! 5),
                          sunday := the_bool (ds ! 6)\<rparr>)
                 else Inr a)
          else Inr a)"

text \<open>The accessors of the single days report with a fixed message.\<close>

definition set_monday :: "pyval \<Rightarrow> AlarmItem \<Rightarrow> AlarmItem" where
  "set_monday v a = (case v of PyBool b \<Rightarrow> a\<lparr>monday := b\<rparr> | _ \<Rightarrow> a)"

definition set_tuesday :: "pyval \<Rightarrow> AlarmItem \<Rightarrow> AlarmItem" where
  "set_tuesday v a = (case v of PyBool b \<Rightarrow> a\<lparr>tuesday := b\<rparr> | _ \<Rightarrow> a)"

definition set_wednesday :: "pyval \<Rightarrow> AlarmItem \<Rightarrow> AlarmItem" where
  "set_wednesday v a = (case v of PyBool b \<Rightarrow> a\<lparr>wednesday := b\<rparr> | _ \<Rightarrow> a)"

definition set_thursday :: "pyval \<Rightarrow> AlarmItem \<Rightarrow> AlarmItem" where
  "set_thursday v a = (case v of PyBool b \<Rightarrow> a\<lparr>thursday := b\<rparr> | _ \<Rightarrow> a)"

definition set_friday :: "pyval \<Rightarrow> AlarmItem \<Rightarrow> AlarmItem" where
  "set_friday v a = (case v of PyBool b \<Rightarrow> a\<lparr>friday := b\<rparr> | _ \<Rightarrow> a)"

definition set_saturday :: "pyval \<Rightarrow> AlarmItem \<Rightarrow> AlarmItem" where
  "set_saturday v a = (case v of PyBool b \<Rightarrow> a\<lparr>saturday := b\<rparr> | _ \<Rightarrow> a)"

definition set_sunday :: "pyval \<Rightarrow> AlarmItem \<Rightarrow> AlarmItem" where
  "set_sunday v a = (case v of PyBool b \<Rightarrow> a\<lparr>sunday := b\<rparr> | _ \<Rightarrow> a)"

subsection \<open>Constructor\<close>

definition blank_instance :: AlarmItem where
  "blank_instance =
     \<lparr>alarm_id = None, hour = 0, minute = 0, enabled = False,
      monday = False, tuesday = False, wednesday = False, thursday = False,
      friday = False, saturday = False, sunday = False,
      label = [], timestamp = None, station_id = None\<rparr>"

definition default_days :: pyval where
  "default_days =
     PyTuple [PyBool False, PyBool False, PyBool False, PyBool False, PyBool False,
              PyBool False, PyBool False]"

text \<open>
  \<^verbatim>\<open>__new__\<close>: every argument goes through its accessor, then each field is compared with
  the argument it was given; the instance is returned only when no comparison differs.
  \<open>Inl\<close> is an exception that escapes, \<open>Inr None\<close> the return value \<^verbatim>\<open>None\<close>.
\<close>

definition AlarmItem_new ::
  "pyval \<Rightarrow> pyval \<Rightarrow> pyval \<Rightarrow> pyval \<Rightarrow> pyval \<Rightarrow> pyval \<Rightarrow> pyval \<Rightarrow> pyval
     \<Rightarrow> py_error + AlarmItem option" where
  "AlarmItem_new hour_arg minute_arg days enabled_arg label_arg timestamp_arg id_arg station_arg =
     and_then (set_hour hour_arg blank_instance) (\<lambda>i1.
     and_then (set_minute minute_arg i1) (\<lambda>i2.
     and_then (set_repeat days i2) (\<lambda>i3.
     and_then (set_enabled enabled_arg i3) (\<lambda>i4.
     and_then (set_label label_arg i4) (\<lambda>i5.
     and_then (if timestamp_arg \<noteq> PyNone then set_timestamp timestamp_arg i5 else Inr i5) (\<lambda>i6.
     and_then (if id_arg \<noteq> PyNone then set_id id_arg i6 else Inr i6) (\<lambda>i7.
     and_then (if station_arg \<noteq> PyNone then set_station_id station_arg i7 else Inr i7)
       (\<lambda>instance.
     and_then (if days \<noteq> PyNone then py_tuple days else Inr []) (\<lambda>ds.
       if \<not> py_eq_int (hour instance) hour_arg
          \<or> \<not> py_eq_int (minute instance) minute_arg
          \<or> (days \<noteq> PyNone \<and> \<not> list_all2 py_eq_bool (repeat instance) ds)
          \<or> (enabled_arg \<noteq> PyNone \<and> \<not> py_eq_bool (enabled instance) enabled_arg)
          \<or> (label_arg \<noteq> PyNone \<and> \<not> py_eq_str (label instance) label_arg)
          \<or> (timestamp_arg \<noteq> PyNone
               \<and> \<not> py_eq_opt_int (timestamp instance) timestamp_arg)
          \<or> (id_arg \<noteq> PyNone \<and> \<not> py_eq_opt_int (alarm_id instance) id_arg)
          \<or> (station_arg \<noteq> PyNone
               \<and> \<not> py_eq_opt_int (station_id instance) station_arg)
       then Inr None
       else Inr (Some instance))))))))))"

subsection \<open>Retrieving data\<close>

definition any_day_enabled :: "AlarmItem \<Rightarrow> bool" where
  "any_day_enabled a = foldl (\<lambda>any_enabled day. if day then True else any_enabled) False (repeat a)"

definition is_active :: "AlarmItem \<Rightarrow> bool" where
  "is_active a = (if enabled a \<and> any_day_enabled a then True else False)"

subsection \<open>Minutes to the next alert\<close>

text \<open>
  The part of \<^verbatim>\<open>minutes_to_alert\<close> after the \<^verbatim>\<open>while\<close> loop: the same day, before the
  reference time, else \<^verbatim>\<open>None\<close>.
\<close>

definition after_week :: "bool list \<Rightarrow> int \<Rightarrow> int \<Rightarrow> int \<Rightarrow> py_error + int option" where
  "after_week rep weekday alarm_day_minute ref_day_minute =
     (case py_getitem rep weekday of
        Inl e \<Rightarrow> Inl e
      | Inr flag \<Rightarrow>
          if flag \<and> ref_day_minute > alarm_day_minute
          then Inr (Some (1440 * 7 - ref_day_minute + alarm_day_minute))
          else Inr None)"

text \<open>
  The \<^verbatim>\<open>while day != weekday\<close> loop with what follows it. For a weekday outside 0..6 the
  loop need not end, so not returning is the value \<open>None\<close> of the outer option.
\<close>

partial_function (option) week_loop ::
  "bool list \<Rightarrow> int \<Rightarrow> int \<Rightarrow> int \<Rightarrow> int \<Rightarrow> int \<Rightarrow> (py_error + int option) option" where
  "week_loop rep weekday alarm_day_minute ref_day_minute day day_count =
     (if day \<noteq> weekday then
        (case py_getitem rep day of
           Inl e \<Rightarrow> Some (Inl e)
         | Inr flag \<Rightarrow>
             if flag then
               Some (Inr (Some
                 (if alarm_day_minute \<ge> ref_day_minute
                  then day_count * 1440 + (alarm_day_minute - ref_day_minute)
                  else day_count * 1440 - (ref_day_minute - alarm_day_minute))))
             else
               week_loop rep weekday alarm_day_minute ref_day_minute
                 (if day + 1 > 6 then 0 else day + 1) (day_count + 1))
      else Some (after_week rep weekday alarm_day_minute ref_day_minute))"

declare week_loop.simps [code]

definition minutes_to_alert ::
  "AlarmItem \<Rightarrow> int \<Rightarrow> int \<Rightarrow> int \<Rightarrow> (py_error + int option) option" where
  "minutes_to_alert a hour_arg minute_arg weekday =
     (let alarm_day_minute = minute a + hour a * 60;
          ref_day_minute = minute_arg + hour_arg * 60
      in case py_getitem (repeat a) weekday of
           Inl e \<Rightarrow> Some (Inl e)
         | Inr flag \<Rightarrow>
             if flag \<and> alarm_day_minute \<ge> ref_day_minute
             then Some (Inr (Some (alarm_day_minute - ref_day_minute)))
             else week_loop (repeat a) weekday alarm_day_minute ref_day_minute
                    (if weekday + 1 > 6 then 0 else weekday + 1) 1)"

subsection \<open>An alarm a few minutes earlier or later\<close>

text \<open>The four normalising loops of \<^verbatim>\<open>diff_alarm\<close>; each ends for every integer.\<close>

function minute_over :: "int \<Rightarrow> int \<Rightarrow> int \<times> int" where
  "minute_over new_minute extra_hours =
     (if new_minute \<ge> 60 then minute_over (new_minute mod 60) (extra_hours + 1)
      else (new_minute, extra_hours))"
  by pat_completeness auto
termination
  by (relation "measure (\<lambda>(m, e). nat m)") auto

function minute_under :: "int \<Rightarrow> int \<Rightarrow> int \<times> int" where
  "minute_under new_minute extra_hours =
     (if new_minute < 0 then minute_under (new_minute + 60) (extra_hours - 1)
      else (new_minute, extra_hours))"
  by pat_completeness auto
termination
  by (relation "measure (\<lambda>(m, e). nat (- m))") auto

function hour_over :: "int \<Rightarrow> int \<Rightarrow> int \<times> int" where
  "hour_over new_hour extra_days =
     (if new_hour \<ge> 24 then hour_over (new_hour mod 24) (extra_days + 1)
      else (new_hour, extra_days))"
  by pat_completeness auto
termination
  by (relation "measure (\<lambda>(h, e). nat h)") auto

function hour_under :: "int \<Rightarrow> int \<Rightarrow> int \<times> int" where
  "hour_under new_hour extra_days =
     (if new_hour < 0 then hour_under (new_hour + 24) (extra_days - 1)
      else (new_hour, extra_days))"
  by pat_completeness auto
termination
  by (relation "measure (\<lambda>(h, e). nat (- h))") auto

declare minute_over.simps [simp del] minute_under.simps [simp del]
  hour_over.simps [simp del] hour_under.simps [simp del]

text \<open>
  \<^verbatim>\<open>new_days.append(new_days.pop(0))\<close> once per day below zero. The list is a copy of the
  seven flags, so \<^verbatim>\<open>pop\<close> never meets an empty list; the model leaves an empty list as it is.
\<close>

function days_up :: "bool list \<Rightarrow> int \<Rightarrow> bool list" where
  "days_up new_days extra_days =
     (if extra_days < 0 then
        days_up (case new_days of [] \<Rightarrow> [] | d # ds \<Rightarrow> ds @ [d]) (extra_days + 1)
      else new_days)"
  by pat_completeness auto
termination
  by (relation "measure (\<lambda>(ds, e). nat (- e))") auto

declare days_up.simps [simp del]

text \<open>Python's slices \<^verbatim>\<open>xs[k:]\<close> and \<^verbatim>\<open>xs[0:k]\<close> for an integer \<open>k\<close> of either sign.\<close>

definition slice_bound :: "'a list \<Rightarrow> int \<Rightarrow> nat" where
  "slice_bound xs k =
     (if k < 0 then nat (max 0 (int (length xs) + k)) else min (nat k) (length xs))"

definition slice_from :: "'a list \<Rightarrow> int \<Rightarrow> 'a list" where
  "slice_from xs k = drop (slice_bound xs k) xs"

definition slice_to :: "'a list \<Rightarrow> int \<Rightarrow> 'a list" where
  "slice_to xs k = take (slice_bound xs k) xs"


text \<open>
  \<^verbatim>\<open>diff_alarm\<close>. Both error reports build their message with \<^verbatim>\<open>%\<close> before \<^verbatim>\<open>None\<close> is
  returned. The new label prints the identity with \<^verbatim>\<open>%s\<close> and the difference with
  \<^verbatim>\<open>%+d\<close>; the days are handed to the constructor as a list.
\<close>

definition diff_alarm :: "AlarmItem \<Rightarrow> pyval \<Rightarrow> py_error + AlarmItem option" where
  "diff_alarm a min_difference =
     (case as_int min_difference of
        None \<Rightarrow> report min_difference None
      | Some d \<Rightarrow>
          if \<not> (- 60 < d \<and> d < 60) then report min_difference None
          else
            (let (m1, eh1) = minute_over (minute a + d) 0;
                 (new_minute, extra_hours) = minute_under m1 eh1;
                 (h1, ed1) = hour_over (hour a + extra_hours) 0;
                 (new_hour, extra_days) = hour_under h1 ed1;
                 new_days =
                   (if extra_days < 0 then days_up (repeat a) extra_days
                    else if extra_days > 0 then
                      slice_from (repeat a) (int (length (repeat a)) - extra_days)
                        @ slice_to (repeat a) (int (length (repeat a)) - extra_days)
                    else repeat a);
                 new_label = label a @ '' (Alarm '' @ fmt_s_id (alarm_id a) @ '' ''
                               @ fmt_plus_d d @ ''min)''
             in AlarmItem_new (PyInt new_hour) (PyInt new_minute) (PyList (map PyBool new_days))
                  (PyBool (enabled a)) (PyStr new_label) PyNone PyNone PyNone))"

text \<open>
  The weekly trigger instants of an alarm, in minutes from Monday 00:00: one for each day
  whose flag is set.
\<close>

definition trigger_instants :: "AlarmItem \<Rightarrow> int set" where
  "trigger_instants a =
     set (map (\<lambda>(d, flag). int d * 1440 + hour a * 60 + minute a)
            (filter snd (List.enumerate 0 (repeat a))))"

section \<open>AlarmDb: editing a stored alarm\<close>

text \<open>
  The table \<^verbatim>\<open>alarms\<close> is the list of its rows, in table order. A row holds the columns of
  one alarm under the names of the fields of \<^verbatim>\<open>AlarmItem\<close>, so it is kept as that record,
  with the primary key in \<open>alarm_id\<close>. \<^verbatim>\<open>update(dict(id=key, column=value), ['id'])\<close> of the
  \<^verbatim>\<open>dataset\<close> library sets the column in every row whose \<^verbatim>\<open>id\<close> is the key and reports
  whether a row matched.
\<close>

definition table_update ::
  "int \<Rightarrow> (AlarmItem \<Rightarrow> AlarmItem) \<Rightarrow> AlarmItem list \<Rightarrow> bool \<times> AlarmItem list" where
  "table_update key write rows =
     (list_ex (\<lambda>r. alarm_id r = Some key) rows,
      map (\<lambda>r. if alarm_id r = Some key then write r else r) rows)"

text \<open>The alarm items that \<^verbatim>\<open>edit_alarm\<close> builds to validate one argument each.\<close>


definition hour_item :: "pyval \<Rightarrow> py_error + AlarmItem option" where
  "hour_item v =
     AlarmItem_new v (PyInt 0) default_days (PyBool True) (PyStr []) PyNone PyNone PyNone"

definition minute_item :: "pyval \<Rightarrow> py_error + AlarmItem option" where
  "minute_item v =
     AlarmItem_new (PyInt 0) v default_days (PyBool True) (PyStr []) PyNone PyNone PyNone"

definition days_item :: "pyval \<Rightarrow> py_error + AlarmItem option" where
  "days_item v =
     AlarmItem_new (PyInt 0) (PyInt 0) v (PyBool True) (PyStr []) PyNone PyNone PyNone"

definition enabled_item :: "pyval \<Rightarrow> py_error + AlarmItem option" where
  "enabled_item v =
     AlarmItem_new (PyInt 0) (PyInt 0) default_days v (PyStr []) PyNone PyNone PyNone"

definition label_item :: "pyval \<Rightarrow> py_error + AlarmItem option" where
  "label_item v =
     AlarmItem_new (PyInt 0) (PyInt 0) default_days (PyBool True) v PyNone PyNone PyNone"

definition station_item :: "pyval \<Rightarrow> py_error + AlarmItem option" where
  "station_item v =
     AlarmItem_new (PyInt 0) (PyInt 0) default_days (PyBool True) (PyStr []) PyNone PyNone v"

text \<open>
  One \<^verbatim>\<open>if argument is not None\<close> block of \<^verbatim>\<open>edit_alarm\<close>: the item built from the
  argument, when there is one, has its columns written to the row at once; \<^verbatim>\<open>None\<close> in its
  place, or no matching row, clears \<open>success\<close>. An exception leaves the function with the
  rows written so far.
\<close>

definition edit_column ::
  "int \<Rightarrow> bool \<Rightarrow> py_error + AlarmItem option \<Rightarrow> (AlarmItem \<Rightarrow> AlarmItem \<Rightarrow> AlarmItem)
     \<Rightarrow> (py_error + bool) \<times> AlarmItem list \<Rightarrow> (py_error + bool) \<times> AlarmItem list" where
  "edit_column key supplied made write st =
     (case st of
        (Inl e, rows) \<Rightarrow> (Inl e, rows)
      | (Inr success, rows) \<Rightarrow>
          if \<not> supplied then (Inr success, rows)
          else
            (case made of
               Inl e \<Rightarrow> (Inl e, rows)
             | Inr None \<Rightarrow> (Inr False, rows)
             | Inr (Some alarm_item) \<Rightarrow>
                 (let (individual_success, rows') = table_update key (write alarm_item) rows
                  in (Inr (if \<not> individual_success then False else success), rows'))))"

definition stamp :: "int \<Rightarrow> int \<Rightarrow> (py_error + bool) \<times> AlarmItem list
     \<Rightarrow> (py_error + bool) \<times> AlarmItem list" where
  "stamp key new_timestamp st =
     (case st of
        (Inr True, rows) \<Rightarrow>
          (let (individual_success, rows') =
                 table_update key (\<lambda>r. r\<lparr>timestamp := Some new_timestamp\<rparr>) rows
           in (Inr (if \<not> individual_success then False else True), rows'))
      | _ \<Rightarrow> st)"

text \<open>
  \<^verbatim>\<open>AlarmDb.edit_alarm\<close>; \<open>now\<close> is \<^verbatim>\<open>int(round(time.time()))\<close>. The result is the
  returned boolean (or the exception) and the table afterwards.
\<close>


definition edit_alarm ::
  "int \<Rightarrow> pyval \<Rightarrow> pyval \<Rightarrow> pyval \<Rightarrow> pyval \<Rightarrow> pyval \<Rightarrow> pyval \<Rightarrow> int \<Rightarrow> AlarmItem list
     \<Rightarrow> (py_error + bool) \<times> AlarmItem list" where
  "edit_alarm key hour_arg minute_arg days enabled_arg label_arg station_arg now rows =
     stamp key now
      (edit_column key (station_arg \<noteq> PyNone) (station_item station_arg)
         (\<lambda>i r. r\<lparr>station_id := station_id i\<rparr>)
      (edit_column key (label_arg \<noteq> PyNone) (label_item label_arg)
         (\<lambda>i r. r\<lparr>label := label i\<rparr>)
      (edit_column key (enabled_arg \<noteq> PyNone) (enabled_item enabled_arg)
         (\<lambda>i r. r\<lparr>enabled := enabled i\<rparr>)
      (edit_column key (days \<noteq> PyNone) (days_item days)
         (\<lambda>i r. r\<lparr>monday := monday i, tuesday := tuesday i, wednesday := wednesday i,
                  thursday := thursday i, friday := friday i, saturday := saturday i,
                  sunday := sunday i\<rparr>)
      (edit_column key (minute_arg \<noteq> PyNone) (minute_item minute_arg)
         (\<lambda>i r. r\<lparr>minute := minute i\<rparr>)
      (edit_column key (hour_arg \<noteq> PyNone) (hour_item hour_arg)
         (\<lambda>i r. r\<lparr>hour := hour i\<rparr>)
         (Inr True, rows)))))))"

text \<open>
  The values the data model of the class allows for each field that can be edited (hour: an
  integer from 0 to 23; minute: an integer from 0 to 59; days: a list or tuple of seven
  booleans; enabled: a boolean; label: a string; station: a non-negative integer), and the
  value such an argument stands for. A Python boolean is of integer type and counts as the
  integer 0 or 1. An argument that is \<^verbatim>\<open>None\<close> is an omitted one.
\<close>

definition well_formed_hour :: "pyval \<Rightarrow> bool" where
  "well_formed_hour v = (case as_int v of Some n \<Rightarrow> 0 \<le> n \<and> n < 24 | None \<Rightarrow> False)"

definition well_formed_minute :: "pyval \<Rightarrow> bool" where
  "well_formed_minute v = (case as_int v of Some n \<Rightarrow> 0 \<le> n \<and> n < 60 | None \<Rightarrow> False)"

definition well_formed_days :: "pyval \<Rightarrow> bool" where
  "well_formed_days v =
     (case v of PyTuple xs \<Rightarrow> length xs = 7 \<and> list_all is_bool_type xs
              | PyList xs \<Rightarrow> length xs = 7 \<and> list_all is_bool_type xs
              | _ \<Rightarrow> False)"

definition well_formed_enabled :: "pyval \<Rightarrow> bool" where
  "well_formed_enabled v = is_bool_type v"

definition well_formed_label :: "pyval \<Rightarrow> bool" where
  "well_formed_label v = (case v of PyStr s \<Rightarrow> True | _ \<Rightarrow> False)"

definition well_formed_station :: "pyval \<Rightarrow> bool" where
  "well_formed_station v = (case as_int v of Some n \<Rightarrow> 0 \<le> n | None \<Rightarrow> False)"

definition the_int :: "pyval \<Rightarrow> int" where
  "the_int v = (case as_int v of Some n \<Rightarrow> n | None \<Rightarrow> 0)"

definition the_flag :: "pyval \<Rightarrow> nat \<Rightarrow> bool" where
  "the_flag v k =
     (case v of PyTuple xs \<Rightarrow> the_bool (xs ! k) | PyList xs \<Rightarrow> the_bool (xs ! k) | _ \<Rightarrow> False)"

text \<open>
  A stored row after an edit that writes each well-formed argument to its field and leaves
  every other field, of an omitted or of a malformed argument, as it was; the identity and
  the timestamp are not touched.
\<close>

definition merged_row ::
  "pyval \<Rightarrow> pyval \<Rightarrow> pyval \<Rightarrow> pyval \<Rightarrow> pyval \<Rightarrow> pyval \<Rightarrow> AlarmItem \<Rightarrow> AlarmItem" where
  "merged_row hour_arg minute_arg days enabled_arg label_arg station_arg r =
     r\<lparr>hour := (if well_formed_hour hour_arg then the_int hour_arg else hour r),
       minute := (if well_formed_minute minute_arg then the_int minute_arg else minute r),
       monday := (if well_formed_days days then the_flag days 0 else monday r),
       tuesday := (if well_formed_days days then the_flag days 1 else tuesday r),
       wednesday := (if well_formed_days days then the_flag days 2 else wednesday r),
       thursday := (if well_formed_days days then the_flag days 3 else thursday r),
       friday := (if well_formed_days days then the_flag days 4 else friday r),
       saturday := (if well_formed_days days then the_flag days 5 else saturday r),
       sunday := (if well_formed_days days then the_flag days 6 else sunday r),
       enabled := (if well_formed_enabled enabled_arg then the_bool enabled_arg else enabled r),
       label := (if well_formed_label label_arg then py_str label_arg else label r),
       station_id :=
         (if well_formed_station station_arg then as_int station_arg else station_id r)\<rparr>"

text \<open>An alarm stored under the key 1: 07:00 on Mondays, enabled.\<close>

definition stored_alarm :: AlarmItem where
  "stored_alarm =
     \<lparr>alarm_id = Some 1, hour = 7, minute = 0, enabled = True,
      monday = True, tuesday = False, wednesday = False, thursday = False,
      friday = False, saturday = False, sunday = False,
      label = ''wake'', timestamp = Some 1000, station_id = None\<rparr>"

section \<open>AlarmManager: the running alarm threads\<close>

text \<open>
  Modelled from the spec: the class \<^verbatim>\<open>AlarmThread\<close> is not among the sources. What the
  manager uses of it follows the timer of the spec: a thread holds a snapshot of one alarm,
  \<^verbatim>\<open>get_id\<close> is the identity of that alarm, \<^verbatim>\<open>edit_alarm\<close> replaces the snapshot,
  \<^verbatim>\<open>start\<close> makes the thread alive, and \<^verbatim>\<open>stop\<close> asks it to end, which it does
  cooperatively. \<open>thread_ref\<close> is the identity of the Python object. Whether a thread that
  is asked to stop has ended when the manager gives up polling \<^verbatim>\<open>isAlive\<close> (3000 ms) is not
  decided by the manager: it is the parameter \<open>obeys\<close>, told by object identity.
\<close>

record AlarmThread =
  thread_ref :: nat
  held_alarm :: AlarmItem
  alive :: bool

definition get_id :: "AlarmThread \<Rightarrow> int option" where
  "get_id t = alarm_id (held_alarm t)"

definition thread_edit_alarm :: "AlarmItem \<Rightarrow> AlarmThread \<Rightarrow> AlarmThread" where
  "thread_edit_alarm alarm t = t\<lparr>held_alarm := alarm\<rparr>"

definition launch :: "nat \<Rightarrow> AlarmItem \<Rightarrow> AlarmThread" where
  "launch ref alarm = \<lparr>thread_ref = ref, held_alarm = alarm, alive = True\<rparr>"

definition stop_and_wait :: "(nat \<Rightarrow> bool) \<Rightarrow> AlarmThread \<Rightarrow> AlarmThread" where
  "stop_and_wait obeys t = t\<lparr>alive := alive t \<and> \<not> obeys (thread_ref t)\<rparr>"

text \<open>
  The manager: the list \<^verbatim>\<open>__alarm_threads\<close>, and the next free object identity for the
  threads it creates.
\<close>

record AlarmManager =
  alarm_threads :: "AlarmThread list"
  next_ref :: nat

text \<open>\<^verbatim>\<open>list.remove(thread)\<close>: the first entry that is this object goes.\<close>

fun remove_thread :: "nat \<Rightarrow> AlarmThread list \<Rightarrow> AlarmThread list" where
  "remove_thread ref [] = []"
| "remove_thread ref (t # ts) = (if thread_ref t = ref then ts else t # remove_thread ref ts)"

lemma length_remove_thread: "length (remove_thread ref ts) \<le> length ts"
  by (induction ts) auto

text \<open>
  \<^verbatim>\<open>__stop_alarm_thread\<close>. The \<^verbatim>\<open>for\<close> loop runs over the list it removes from: the
  iterator is an index into the list as it is at each step.
\<close>

function stop_loop ::
  "(nat \<Rightarrow> bool) \<Rightarrow> int option \<Rightarrow> nat \<Rightarrow> bool \<Rightarrow> AlarmThread list \<Rightarrow> bool \<times> AlarmThread list" where
  "stop_loop obeys alarm_id_arg i success threads =
     (if i < length threads then
        (let alarm_thread = threads ! i in
         if alarm_id_arg = get_id alarm_thread then
           (let stopped = stop_and_wait obeys alarm_thread;
                success' = \<not> alive stopped
            in if success'
               then stop_loop obeys alarm_id_arg (i + 1) success'
                      (remove_thread (thread_ref stopped) (threads[i := stopped]))
               else stop_loop obeys alarm_id_arg (i + 1) success' (threads[i := stopped]))
         else stop_loop obeys alarm_id_arg (i + 1) success threads)
      else (success, threads))"
  by pat_completeness auto
termination
proof (relation "measure (\<lambda>(obeys, a, i, s, threads). length threads - i)", goal_cases)
  case 1
  show ?case by simp
next
  case (2 obeys a i s threads t stopped s')
  have "length (remove_thread (thread_ref stopped) (threads[i := stopped])) \<le> length threads"
    using length_remove_thread [of "thread_ref stopped" "threads[i := stopped]"] by simp
  with 2 show ?case by simp
next
  case 3
  then show ?case by simp
next
  case 4
  then show ?case by simp
qed

declare stop_loop.simps [simp del]

definition stop_alarm_thread ::
  "(nat \<Rightarrow> bool) \<Rightarrow> int option \<Rightarrow> AlarmManager \<Rightarrow> bool \<times> AlarmManager" where
  "stop_alarm_thread obeys alarm_id_arg mgr =
     (let (success, threads) = stop_loop obeys alarm_id_arg 0 False (alarm_threads mgr)
      in (success, mgr\<lparr>alarm_threads := threads\<rparr>))"

text \<open>The index at which \<^verbatim>\<open>for i, alarm_thread in enumerate(...)\<close> first meets a condition.\<close>

fun first_index :: "('a \<Rightarrow> bool) \<Rightarrow> 'a list \<Rightarrow> nat option" where
  "first_index P [] = None"
| "first_index P (x # xs) = (if P x then Some 0 else map_option Suc (first_index P xs))"

text \<open>
  \<^verbatim>\<open>__set_alarm_thread\<close>, with the returned \<^verbatim>\<open>thread_up\<close>. After a dead thread has been
  replaced, \<^verbatim>\<open>thread_up\<close> is still read from the old thread.
\<close>

definition set_alarm_thread ::
  "(nat \<Rightarrow> bool) \<Rightarrow> AlarmItem \<Rightarrow> AlarmManager \<Rightarrow> bool \<times> AlarmManager" where
  "set_alarm_thread obeys alarm mgr =
     (case first_index (\<lambda>t. alarm_id alarm = get_id t) (alarm_threads mgr) of
        Some i \<Rightarrow>
          if \<not> is_active alarm then
            (False, snd (stop_alarm_thread obeys (alarm_id alarm) mgr))
          else
            (let alarm_thread = thread_edit_alarm alarm (alarm_threads mgr ! i);
                 threads = (alarm_threads mgr)[i := alarm_thread]
             in if \<not> alive alarm_thread then
                  (alive alarm_thread,
                   mgr\<lparr>alarm_threads := threads[i := launch (next_ref mgr) alarm],
                       next_ref := next_ref mgr + 1\<rparr>)
                else (alive alarm_thread, mgr\<lparr>alarm_threads := threads\<rparr>))
      | None \<Rightarrow>
          if is_active alarm then
            (alive (launch (next_ref mgr) alarm),
             mgr\<lparr>alarm_threads := alarm_threads mgr @ [launch (next_ref mgr) alarm],
                 next_ref := next_ref mgr + 1\<rparr>)
          else (False, mgr))"

fun running_in :: "int option \<Rightarrow> AlarmThread list \<Rightarrow> bool" where
  "running_in alarm_id_arg [] = False"
| "running_in alarm_id_arg (t # ts) =
     (if get_id t = alarm_id_arg then alive t else running_in alarm_id_arg ts)"

definition is_alarm_running :: "int option \<Rightarrow> AlarmManager \<Rightarrow> bool" where
  "is_alarm_running alarm_id_arg mgr = running_in alarm_id_arg (alarm_threads mgr)"

text \<open>
  \<^verbatim>\<open>check_threads_state\<close>. \<open>all_alarms\<close> is what \<^verbatim>\<open>get_all_alarms()\<close> returned. First the
  loop over the alarms, carrying \<^verbatim>\<open>previously_correct\<close> and \<^verbatim>\<open>running_counter\<close>.
\<close>

fun check_alarms ::
  "(nat \<Rightarrow> bool) \<Rightarrow> AlarmItem list \<Rightarrow> bool \<times> nat \<times> AlarmManager \<Rightarrow> bool \<times> nat \<times> AlarmManager" where
  "check_alarms obeys [] st = st"
| "check_alarms obeys (alarm # rest) (previously_correct, running_counter, mgr) =
     (if is_active alarm then
        (if \<not> is_alarm_running (alarm_id alarm) mgr
         then check_alarms obeys rest
                (False, running_counter + 1, snd (set_alarm_thread obeys alarm mgr))
         else check_alarms obeys rest (previously_correct, running_counter + 1, mgr))
      else
        (if is_alarm_running (alarm_id alarm) mgr
         then check_alarms obeys rest
                (False, running_counter, snd (stop_alarm_thread obeys (alarm_id alarm) mgr))
         else check_alarms obeys rest (previously_correct, running_counter, mgr)))"

lemma length_stop_loop:
  "length (snd (stop_loop obeys a i s threads)) \<le> length threads"
proof (induction obeys a i s threads rule: stop_loop.induct)
  case (1 obeys a i s threads)
  show ?case
  proof (cases "i < length threads")
    case False
    then show ?thesis by (subst stop_loop.simps) simp
  next
    case inside: True
    let ?t = "threads ! i"
    let ?stopped = "stop_and_wait obeys ?t"
    show ?thesis
    proof (cases "a = get_id ?t")
      case False
      with inside "1.IH"(3) [OF inside refl] show ?thesis
        by (subst stop_loop.simps) simp
    next
      case match: True
      show ?thesis
      proof (cases "alive ?stopped")
        case True
        with inside match "1.IH"(2) [OF inside refl match refl refl] show ?thesis
          by (subst stop_loop.simps) (simp add: Let_def)
      next
        case False
        have "length (remove_thread (thread_ref ?stopped) (threads[i := ?stopped])) \<le> length threads"
          using length_remove_thread [of "thread_ref ?stopped" "threads[i := ?stopped]"] by simp
        with False inside match "1.IH"(1) [OF inside refl match refl refl] show ?thesis
          by (subst stop_loop.simps) (simp add: Let_def)
      qed
    qed
  qed
qed

lemma length_stop_alarm_thread:
  "length (alarm_threads (snd (stop_alarm_thread obeys a mgr))) \<le> length (alarm_threads mgr)"
  using length_stop_loop [of obeys a 0 False "alarm_threads mgr"]
  by (simp add: stop_alarm_thread_def split_def Let_def)

text \<open>
  The second loop of \<^verbatim>\<open>check_threads_state\<close>: over the thread list, which
  \<^verbatim>\<open>__stop_alarm_thread\<close> shortens while the loop runs.
\<close>

function orphan_loop ::
  "(nat \<Rightarrow> bool) \<Rightarrow> AlarmItem list \<Rightarrow> nat \<Rightarrow> AlarmManager \<Rightarrow> AlarmManager" where
  "orphan_loop obeys all_alarms i mgr =
     (if i < length (alarm_threads mgr) then
        (let alarm_thread = alarm_threads mgr ! i in
         if list_ex (\<lambda>alarm. alarm_id alarm = get_id alarm_thread) all_alarms
         then orphan_loop obeys all_alarms (i + 1) mgr
         else orphan_loop obeys all_alarms (i + 1)
                (snd (stop_alarm_thread obeys (get_id alarm_thread) mgr)))
      else mgr)"
  by pat_completeness auto
termination
proof (relation "measure (\<lambda>(obeys, all_alarms, i, mgr). length (alarm_threads mgr) - i)",
    goal_cases)
  case 1
  show ?case by simp
next
  case 2
  then show ?case by simp
next
  case (3 obeys all_alarms i mgr t)
  with length_stop_alarm_thread [of obeys "get_id t" mgr] show ?case by simp
qed

declare orphan_loop.simps [simp del]

definition check_threads_state ::
  "(nat \<Rightarrow> bool) \<Rightarrow> AlarmItem list \<Rightarrow> AlarmManager \<Rightarrow> bool \<times> AlarmManager" where
  "check_threads_state obeys all_alarms mgr =
     (let (previously_correct, running_counter, mgr1) =
            check_alarms obeys all_alarms (True, 0, mgr)
      in if length (alarm_threads mgr1) \<noteq> running_counter
         then (False, orphan_loop obeys all_alarms 0 mgr1)
         else (previously_correct, mgr1))"

text \<open>
  A well-formed registry: at most one thread per alarm identity, every thread object listed
  once, and every object identity in use below the next free one.
\<close>

definition registry_ok :: "AlarmManager \<Rightarrow> bool" where
  "registry_ok mgr =
     (distinct (map get_id (alarm_threads mgr)) \<and> distinct (map thread_ref (alarm_threads mgr))
      \<and> list_all (\<lambda>t. thread_ref t < next_ref mgr) (alarm_threads mgr))"

text \<open>Two live threads whose alarms, 5 and 6, are not (or no longer) in the database.\<close>

definition orphan_a :: AlarmThread where
  "orphan_a = launch 0 (blank_instance\<lparr>alarm_id := Some 5\<rparr>)"

definition orphan_b :: AlarmThread where
  "orphan_b = launch 1 (blank_instance\<lparr>alarm_id := Some 6\<rparr>)"

text \<open>
  A thread is an orphan when no stored alarm has its identity: the test of the inner
  \<^verbatim>\<open>for ... else\<close> of \<^verbatim>\<open>check_threads_state\<close>.
\<close>

definition orphaned :: "AlarmItem list \<Rightarrow> AlarmThread \<Rightarrow> bool" where
  "orphaned all_alarms t = (\<not> list_ex (\<lambda>alarm. alarm_id alarm = get_id t) all_alarms)"


text \<open>
  A thread is registered for an idle record when a stored alarm that is not active has its
  identity.
\<close>

definition idle_record :: "AlarmItem list \<Rightarrow> AlarmThread \<Rightarrow> bool" where
  "idle_record all_alarms t =
     list_ex (\<lambda>alarm. alarm_id alarm = get_id t \<and> \<not> is_active alarm) all_alarms"

text \<open>No two neighbours in a list both have the property.\<close>

fun no_adjacent :: "('a \<Rightarrow> bool) \<Rightarrow> 'a list \<Rightarrow> bool" where
  "no_adjacent P [] = True"
| "no_adjacent P [x] = True"
| "no_adjacent P (x # y # zs) = (\<not> (P x \<and> P y) \<and> no_adjacent P (y # zs))"

text \<open>
  The orphans stand apart in a thread list when, once the threads of idle records are taken
  out, no orphan comes right after another one.
\<close>

definition orphans_apart :: "AlarmItem list \<Rightarrow> AlarmThread list \<Rightarrow> bool" where
  "orphans_apart all_alarms ts =
     no_adjacent (orphaned all_alarms) (filter (\<lambda>t. \<not> idle_record all_alarms t) ts)"

text \<open>
  The states from which one call of \<^verbatim>\<open>check_threads_state\<close> brings the registry in
  line with the stored alarms: every live thread that is an orphan or belongs to an idle
  record ends in time when it is asked to stop, no dead thread is registered for an idle
  record, and the orphans stand apart.
\<close>

definition one_call_settles ::
  "(nat \<Rightarrow> bool) \<Rightarrow> AlarmItem list \<Rightarrow> AlarmManager \<Rightarrow> bool" where
  "one_call_settles obeys all_alarms mgr =
     ((\<forall>t\<in>set (alarm_threads mgr).
          alive t \<and> (orphaned all_alarms t \<or> idle_record all_alarms t) \<longrightarrow> obeys (thread_ref t))
      \<and> (\<forall>t\<in>set (alarm_threads mgr). idle_record all_alarms t \<longrightarrow> alive t)
      \<and> orphans_apart all_alarms (alarm_threads mgr))"

text \<open>
  What a loop leaves of the list it runs over when it removes each element with the property
  as it meets it: the element after a removed one moves into its place and is passed over.
\<close>

function sweep :: "('a \<Rightarrow> bool) \<Rightarrow> 'a list \<Rightarrow> 'a list" where
  "sweep P [] = []"
| "sweep P (x # xs) = (if P x then take 1 xs @ sweep P (drop 1 xs) else x # sweep P xs)"
  by pat_completeness auto
termination
  by (relation "measure (\<lambda>(P, xs). length xs)") auto

declare sweep.simps [simp del]

text \<open>
  A thread that \<^verbatim>\<open>check_threads_state\<close> does not remove although no active alarm stands
  behind it: it is alive, belongs to an orphan or to an idle record and does not end in time
  when asked to stop, or it is dead and registered for an idle record.
\<close>

definition stuck :: "(nat \<Rightarrow> bool) \<Rightarrow> AlarmItem list \<Rightarrow> AlarmThread \<Rightarrow> bool" where
  "stuck obeys all_alarms t =
     (if alive t
      then \<not> obeys (thread_ref t) \<and> (orphaned all_alarms t \<or> idle_record all_alarms t)
      else idle_record all_alarms t)"

text \<open>
  What the first loop of \<^verbatim>\<open>check_threads_state\<close> does with one alarm, and the invariant
  that loop keeps: the registry stays well formed, a live thread whose identity is not that
  of an active alarm ends in time when asked to, and no dead thread is registered for an
  alarm that is not active.
\<close>

definition check_one :: "(nat \<Rightarrow> bool) \<Rightarrow> AlarmItem \<Rightarrow> AlarmManager \<Rightarrow> AlarmManager" where
  "check_one obeys a mgr =
     (if is_active a
      then (if is_alarm_running (alarm_id a) mgr then mgr else snd (set_alarm_thread obeys a mgr))
      else (if is_alarm_running (alarm_id a) mgr
            then snd (stop_alarm_thread obeys (alarm_id a) mgr) else mgr))"

definition phase_inv :: "(nat \<Rightarrow> bool) \<Rightarrow> AlarmItem list \<Rightarrow> AlarmManager \<Rightarrow> bool" where
  "phase_inv obeys all_alarms mgr =
     (registry_ok mgr
      \<and> (\<forall>t\<in>set (alarm_threads mgr).
            alive t \<and> (\<forall>a\<in>set all_alarms. alarm_id a = get_id t \<longrightarrow> \<not> is_active a)
              \<longrightarrow> obeys (thread_ref t))
      \<and> (\<forall>t\<in>set (alarm_threads mgr).
            \<not> alive t \<longrightarrow> (\<forall>a\<in>set all_alarms. alarm_id a = get_id t \<longrightarrow> is_active a)))"

text \<open>An alarm stored under the key 2 that is switched off.\<close>

definition sleeper :: AlarmItem where
  "sleeper = stored_alarm\<lparr>alarm_id := Some 2, enabled := False\<rparr>"

text \<open>The effect of one block on one row, and of all six on one row.\<close>

definition apply_col ::
  "bool \<Rightarrow> py_error + AlarmItem option \<Rightarrow> (AlarmItem \<Rightarrow> AlarmItem \<Rightarrow> AlarmItem) \<Rightarrow> AlarmItem \<Rightarrow> AlarmItem" where
  "apply_col supplied made write r =
     (if supplied then (case made of Inr (Some i) \<Rightarrow> write i r | _ \<Rightarrow> r) else r)"

definition col_ok :: "bool \<Rightarrow> py_error + AlarmItem option \<Rightarrow> bool" where
  "col_ok supplied made = (case made of Inr (Some i) \<Rightarrow> True | _ \<Rightarrow> \<not> supplied)"

definition on_key :: "int \<Rightarrow> (AlarmItem \<Rightarrow> AlarmItem) \<Rightarrow> AlarmItem list \<Rightarrow> AlarmItem list" where
  "on_key key W rows = map (\<lambda>r. if alarm_id r = Some key then W r else r) rows"

definition edited_row ::
  "pyval \<Rightarrow> pyval \<Rightarrow> pyval \<Rightarrow> pyval \<Rightarrow> pyval \<Rightarrow> pyval \<Rightarrow> AlarmItem \<Rightarrow> AlarmItem" where
  "edited_row hour_arg minute_arg days enabled_arg label_arg station_arg r =
     apply_col (station_arg \<noteq> PyNone) (station_item station_arg)
         (\<lambda>i r. r\<lparr>station_id := station_id i\<rparr>)
      (apply_col (label_arg \<noteq> PyNone) (label_item label_arg)
         (\<lambda>i r. r\<lparr>label := label i\<rparr>)
      (apply_col (enabled_arg \<noteq> PyNone) (enabled_item enabled_arg)
         (\<lambda>i r. r\<lparr>enabled := enabled i\<rparr>)
      (apply_col (days \<noteq> PyNone) (days_item days)
         (\<lambda>i r. r\<lparr>monday := monday i, tuesday := tuesday i, wednesday := wednesday i,
                  thursday := thursday i, friday := friday i, saturday := saturday i,
                  sunday := sunday i\<rparr>)
      (apply_col (minute_arg \<noteq> PyNone) (minute_item minute_arg)
         (\<lambda>i r. r\<lparr>minute := minute i\<rparr>)
      (apply_col (hour_arg \<noteq> PyNone) (hour_item hour_arg)
         (\<lambda>i r. r\<lparr>hour := hour i\<rparr>) r)))))"

definition diff_label :: "AlarmItem \<Rightarrow> int \<Rightarrow> string" where
  "diff_label a d = label a @ '' (Alarm '' @ fmt_s_id (alarm_id a) @ '' '' @ fmt_plus_d d @ ''min)''"

definition monday_only :: "int \<Rightarrow> int \<Rightarrow> AlarmItem \<Rightarrow> AlarmItem" where
  "monday_only h m a =
     a\<lparr>hour := h, minute := m, monday := True, tuesday := False, wednesday := False,
       thursday := False, friday := False, saturday := False, sunday := False\<rparr>"

section \<open>Properties of minutes_to_alert\<close>

lemma week_loop_step:
  "day \<noteq> weekday \<Longrightarrow>
   week_loop rep weekday adm rdm day dc =
     (case py_getitem rep day of
        Inl e \<Rightarrow> Some (Inl e)
      | Inr flag \<Rightarrow>
          if flag then
            Some (Inr (Some (if adm \<ge> rdm then dc * 1440 + (adm - rdm)
                             else dc * 1440 - (rdm - adm))))
          else week_loop rep weekday adm rdm (if day + 1 > 6 then 0 else day + 1) (dc + 1))"
  by (subst week_loop.simps) simp

lemma week_loop_exit:
  "week_loop rep weekday adm rdm weekday dc = Some (after_week rep weekday adm rdm)"
  by (subst week_loop.simps) simp

lemma weekday_cases:
  "0 \<le> (wd::int) \<Longrightarrow> wd \<le> 6 \<Longrightarrow>
   wd = 0 \<or> wd = 1 \<or> wd = 2 \<or> wd = 3 \<or> wd = 4 \<or> wd = 5 \<or> wd = 6"
  by arith

lemma any_day_enabled_iff:
  "any_day_enabled a \<longleftrightarrow>
     monday a \<or> tuesday a \<or> wednesday a \<or> thursday a \<or> friday a \<or> saturday a \<or> sunday a"
  by (auto simp add: any_day_enabled_def repeat_def)

lemmas mta_unfold =
  minutes_to_alert_def repeat_def py_getitem_def week_loop_step week_loop_exit after_week_def

text \<open>
  C1. For an alarm with hour in 0..23, minute in 0..59 and at least one repeat flag set, and
  a reference hour in 0..23, minute in 0..59 and weekday in 0..6, \<^verbatim>\<open>minutes_to_alert\<close>
  returns (no exception, no endless loop, not \<^verbatim>\<open>None\<close>) an integer between 0 and 10079.
\<close>

theorem minutes_to_alert_range:
  assumes "0 \<le> hour a" "hour a \<le> 23" "0 \<le> minute a" "minute a \<le> 59"
    and "any_day_enabled a"
    and "0 \<le> h" "h \<le> 23" "0 \<le> m" "m \<le> 59" "0 \<le> wd" "wd \<le> 6"
  shows "\<exists>n. minutes_to_alert a h m wd = Some (Inr (Some n)) \<and> 0 \<le> n \<and> n \<le> 10079"
  using weekday_cases[OF assms(10,11)] assms(1-9)
  by (elim disjE) (auto simp add: any_day_enabled_iff mta_unfold Let_def)

theorem minutes_to_alert_range_witness:
  "\<exists>n. minutes_to_alert (monday_only 7 0 blank_instance) 7 1 0 = Some (Inr (Some n))
       \<and> 0 \<le> n \<and> n \<le> 10079"
  using minutes_to_alert_range [of "monday_only 7 0 blank_instance" 7 1 0]
  by (simp add: monday_only_def blank_instance_def any_day_enabled_iff)

text \<open>
  C7. When all seven repeat flags are false, \<^verbatim>\<open>minutes_to_alert\<close> returns \<^verbatim>\<open>None\<close> for
  every reference hour and minute and every weekday 0..6, whatever the alarm's time is.
\<close>

theorem minutes_to_alert_no_day:
  assumes "\<not> any_day_enabled a" and "0 \<le> wd" and "wd \<le> 6"
  shows "minutes_to_alert a h m wd = Some (Inr None)"
  using weekday_cases[OF assms(2,3)] assms(1)
  by (elim disjE) (simp_all add: any_day_enabled_iff mta_unfold)

theorem minutes_to_alert_no_day_witness:
  "\<not> any_day_enabled blank_instance \<and> minutes_to_alert blank_instance 23 59 6 = Some (Inr None)"
  using minutes_to_alert_no_day [of blank_instance 6 23 59]
  by (simp add: blank_instance_def any_day_enabled_iff)

text \<open>
  Outside 0..6 the weekday is no index of the seven flags: 7 raises an IndexError at the
  first test.
\<close>

lemma minutes_to_alert_weekday_7: "minutes_to_alert a h m 7 = Some (Inl IndexError)"
  by (simp add: minutes_to_alert_def repeat_def py_getitem_def)

text \<open>
  C8. Boundary values. An alarm at 07:00 that repeats on Monday only gives 0 at the reference
  Monday 07:00 and 10079 at Monday 07:01; an alarm at 00:00 that repeats on Monday only gives
  1 at the reference Sunday (weekday 6) 23:59. The other fields of the alarm do not matter.
\<close>

theorem minutes_to_alert_boundaries:
  "minutes_to_alert (monday_only 7 0 a) 7 0 0 = Some (Inr (Some 0))
   \<and> minutes_to_alert (monday_only 7 0 a) 7 1 0 = Some (Inr (Some 10079))
   \<and> minutes_to_alert (monday_only 0 0 a) 23 59 6 = Some (Inr (Some 1))"
  by (simp add: monday_only_def mta_unfold)

section \<open>Properties of diff_alarm\<close>

lemma length_repeat: "length (repeat a) = 7"
  by (simp add: repeat_def)

lemma set_flagged:
  "set (filter snd (List.enumerate 0 xs)) = {(k, True) | k. k < length xs \<and> xs ! k}"
proof (rule set_eqI)
  fix p :: "nat \<times> bool"
  obtain k x where p: "p = (k, x)" by (cases p)
  show "p \<in> set (filter snd (List.enumerate 0 xs)) \<longleftrightarrow>
        p \<in> {(k, True) | k. k < length xs \<and> xs ! k}"
    unfolding p by (simp add: in_set_enumerate_eq) blast
qed

lemma in_trigger_instants_nth:
  "t \<in> trigger_instants a \<longleftrightarrow>
     (\<exists>k<7. repeat a ! k \<and> t = int k * 1440 + hour a * 60 + minute a)"
proof -
  have "trigger_instants a =
      (\<lambda>(d, flag). int d * 1440 + hour a * 60 + minute a) ` {(k, True) | k. k < 7 \<and> repeat a ! k}"
    unfolding trigger_instants_def set_map set_flagged length_repeat ..
  then show ?thesis by (simp add: image_iff) blast
qed


lemma instants_rotate:
  assumes flags: "\<And>k. k < 7 \<Longrightarrow> repeat b ! ((k + e) mod 7) = repeat a ! k"
    and shifted: "\<And>k. k < 7 \<Longrightarrow>
          (int k * 1440 + hour a * 60 + minute a + d) mod 10080 =
            int ((k + e) mod 7) * 1440 + hour b * 60 + minute b"
    and e: "e \<le> 7"
  shows "trigger_instants b = (\<lambda>t. (t + d) mod 10080) ` trigger_instants a"
proof (rule set_eqI)
  fix t
  show "t \<in> trigger_instants b \<longleftrightarrow> t \<in> (\<lambda>t. (t + d) mod 10080) ` trigger_instants a"
  proof
    assume "t \<in> trigger_instants b"
    then obtain j where j: "j < 7" "repeat b ! j" "t = int j * 1440 + hour b * 60 + minute b"
      unfolding in_trigger_instants_nth by blast
    define k where "k = (j + (7 - e)) mod 7"
    have k: "k < 7" by (simp add: k_def)
    have "(k + e) mod 7 = (j + 7) mod 7"
      unfolding k_def using e by (simp add: mod_add_left_eq)
    then have kj: "(k + e) mod 7 = j" using j(1) by simp
    have "repeat a ! k" using flags [OF k] j(2) kj by simp
    moreover have "t = (int k * 1440 + hour a * 60 + minute a + d) mod 10080"
      using shifted [OF k] j(3) kj by simp
    ultimately have "\<exists>s. s \<in> trigger_instants a \<and> t = (s + d) mod 10080"
      unfolding in_trigger_instants_nth using k by blast
    then show "t \<in> (\<lambda>t. (t + d) mod 10080) ` trigger_instants a" by blast
  next
    assume "t \<in> (\<lambda>t. (t + d) mod 10080) ` trigger_instants a"
    then obtain s where "s \<in> trigger_instants a" "t = (s + d) mod 10080" by blast
    then obtain k where k: "k < 7" "repeat a ! k"
        "t = (int k * 1440 + hour a * 60 + minute a + d) mod 10080"
      unfolding in_trigger_instants_nth by blast
    have "(k + e) mod 7 < 7" by simp
    moreover have "repeat b ! ((k + e) mod 7)" using flags k by simp
    moreover have "t = int ((k + e) mod 7) * 1440 + hour b * 60 + minute b"
      using shifted k by simp
    ultimately show "t \<in> trigger_instants b"
      unfolding in_trigger_instants_nth by blast
  qed
qed

lemma minute_over_stop: "m < 60 \<Longrightarrow> minute_over m e = (m, e)"
  by (subst minute_over.simps) simp

lemma minute_over_eq:
  "minute_over m e = (if m \<ge> 60 then (m mod 60, e + 1) else (m, e))"
  by (subst minute_over.simps) (simp add: minute_over_stop)

lemma minute_under_stop: "0 \<le> m \<Longrightarrow> minute_under m e = (m, e)"
  by (subst minute_under.simps) simp

lemma minute_under_eq:
  "- 60 \<le> m \<Longrightarrow> minute_under m e = (if m < 0 then (m + 60, e - 1) else (m, e))"
  by (subst minute_under.simps) (simp add: minute_under_stop)

lemma hour_over_stop: "h < 24 \<Longrightarrow> hour_over h e = (h, e)"
  by (subst hour_over.simps) simp

lemma hour_over_eq:
  "hour_over h e = (if h \<ge> 24 then (h mod 24, e + 1) else (h, e))"
  by (subst hour_over.simps) (simp add: hour_over_stop)

lemma hour_under_stop: "0 \<le> h \<Longrightarrow> hour_under h e = (h, e)"
  by (subst hour_under.simps) simp

lemma hour_under_eq:
  "- 24 \<le> h \<Longrightarrow> hour_under h e = (if h < 0 then (h + 24, e - 1) else (h, e))"
  by (subst hour_under.simps) (simp add: hour_under_stop)

lemma days_up_stop: "0 \<le> e \<Longrightarrow> days_up ds e = ds"
  by (subst days_up.simps) simp

lemma days_up_once: "days_up (d # ds) (- 1) = ds @ [d]"
  by (subst days_up.simps) (simp add: days_up_stop)

lemma report_eq:
  "report v a = (case v of PyTuple xs \<Rightarrow> if length xs = 1 then Inr a else Inl TypeError
                          | _ \<Rightarrow> Inr a)"
proof (cases v)
  case (PyTuple xs)
  then show ?thesis
    by (cases xs; cases "tl xs") (simp_all add: report_def percent_s_def)
qed (simp_all add: report_def percent_s_def)

lemma report_int: "as_int v = Some n \<Longrightarrow> report v a = Inr a"
  by (cases v) (simp_all add: report_eq as_int_def)

lemma AlarmItem_new_valid:
  assumes "0 \<le> h" "h < 24" "0 \<le> m" "m < 60"
  shows "AlarmItem_new (PyInt h) (PyInt m)
           (PyList [PyBool d0, PyBool d1, PyBool d2, PyBool d3, PyBool d4, PyBool d5, PyBool d6])
           (PyBool en) (PyStr l) PyNone PyNone PyNone =
         Inr (Some \<lparr>alarm_id = None, hour = h, minute = m, enabled = en,
                    monday = d0, tuesday = d1, wednesday = d2, thursday = d3,
                    friday = d4, saturday = d5, sunday = d6,
                    label = l, timestamp = None, station_id = None\<rparr>)"
  using assms
  by (simp add: AlarmItem_new_def and_then_def set_hour_def set_minute_def set_repeat_def
      set_enabled_def set_label_def as_int_def py_len_def py_tuple_def is_bool_type_def
      the_bool_def blank_instance_def py_eq_int_def py_eq_bool_def py_eq_str_def repeat_def
      py_str_def Let_def)

lemma mod60_over: "60 \<le> (t::int) \<Longrightarrow> t < 120 \<Longrightarrow> t mod 60 = t - 60"
  by presburger


lemmas diff_unfold = diff_alarm_def as_int_def Let_def minute_over_eq minute_under_eq hour_over_eq
  hour_under_eq days_up_stop days_up_once repeat_def slice_from_def slice_to_def
  slice_bound_def AlarmItem_new_valid mod60_over

lemma diff_alarm_plain:
  assumes "0 \<le> hour a" "hour a \<le> 23" "- 59 \<le> d" "d \<le> 59"
    and "0 \<le> minute a + d" "minute a + d < 60"
  shows "diff_alarm a (PyInt d) =
     Inr (Some \<lparr>alarm_id = None, hour = hour a, minute = minute a + d, enabled = enabled a,
            monday = monday a, tuesday = tuesday a, wednesday = wednesday a, thursday = thursday a,
            friday = friday a, saturday = saturday a, sunday = sunday a,
            label = diff_label a d, timestamp = None, station_id = None\<rparr>)"
  using assms by (simp add: diff_unfold diff_label_def)

lemma diff_alarm_next_hour:
  assumes "0 \<le> hour a" "hour a < 23" "- 59 \<le> d" "d \<le> 59"
    and "60 \<le> minute a + d" "minute a \<le> 59"
  shows "diff_alarm a (PyInt d) =
     Inr (Some \<lparr>alarm_id = None, hour = hour a + 1, minute = minute a + d - 60, enabled = enabled a,
            monday = monday a, tuesday = tuesday a, wednesday = wednesday a, thursday = thursday a,
            friday = friday a, saturday = saturday a, sunday = sunday a,
            label = diff_label a d, timestamp = None, station_id = None\<rparr>)"
  using assms by (simp add: diff_unfold diff_label_def)

lemma diff_alarm_prev_hour:
  assumes "0 < hour a" "hour a \<le> 23" "- 59 \<le> d" "d \<le> 59"
    and "minute a + d < 0" "0 \<le> minute a"
  shows "diff_alarm a (PyInt d) =
     Inr (Some \<lparr>alarm_id = None, hour = hour a - 1, minute = minute a + d + 60, enabled = enabled a,
            monday = monday a, tuesday = tuesday a, wednesday = wednesday a, thursday = thursday a,
            friday = friday a, saturday = saturday a, sunday = sunday a,
            label = diff_label a d, timestamp = None, station_id = None\<rparr>)"
  using assms by (simp add: diff_unfold diff_label_def)

lemma diff_alarm_next_day:
  assumes "hour a = 23" "- 59 \<le> d" "d \<le> 59"
    and "60 \<le> minute a + d" "minute a \<le> 59"
  shows "diff_alarm a (PyInt d) =
     Inr (Some \<lparr>alarm_id = None, hour = 0, minute = minute a + d - 60, enabled = enabled a,
            monday = sunday a, tuesday = monday a, wednesday = tuesday a, thursday = wednesday a,
            friday = thursday a, saturday = friday a, sunday = saturday a,
            label = diff_label a d, timestamp = None, station_id = None\<rparr>)"
  using assms by (simp add: diff_unfold diff_label_def)

lemma diff_alarm_prev_day:
  assumes "hour a = 0" "- 59 \<le> d" "d \<le> 59"
    and "minute a + d < 0" "0 \<le> minute a"
  shows "diff_alarm a (PyInt d) =
     Inr (Some \<lparr>alarm_id = None, hour = 23, minute = minute a + d + 60, enabled = enabled a,
            monday = tuesday a, tuesday = wednesday a, wednesday = thursday a, thursday = friday a,
            friday = saturday a, saturday = sunday a, sunday = monday a,
            label = diff_label a d, timestamp = None, station_id = None\<rparr>)"
  using assms by (simp add: diff_unfold diff_label_def)



lemma less7_cases:
  "(k::nat) < 7 \<Longrightarrow> k = 0 \<or> k = 1 \<or> k = 2 \<or> k = 3 \<or> k = 4 \<or> k = 5 \<or> k = 6"
  by arith

lemma shifted_same:
  assumes "k < 7" and "tb = ta + d" and "0 \<le> tb" "tb < 1440"
  shows "(int k * 1440 + ta + d) mod 10080 = int ((k + 0) mod 7) * 1440 + tb"
proof -
  have r: "0 \<le> int k * 1440 + tb" "int k * 1440 + tb < 10080" using assms by auto
  have "int k * 1440 + ta + d = int k * 1440 + tb" using assms by simp
  then show ?thesis using r assms(1) by (simp add: mod_pos_pos_trivial)
qed

lemma shifted_next:
  assumes "k < 7" and "tb = ta + d - 1440" and "0 \<le> tb" "tb < 1440"
  shows "(int k * 1440 + ta + d) mod 10080 = int ((k + 1) mod 7) * 1440 + tb"
proof (cases "k = 6")
  case True
  then have "int k * 1440 + ta + d = tb + 10080" using assms by simp
  then have "(int k * 1440 + ta + d) mod 10080 = tb mod 10080"
    by simp
  then show ?thesis using True assms by (simp add: mod_pos_pos_trivial)
next
  case False
  then have k: "k + 1 < 7" using assms by simp
  then have m: "(k + 1) mod 7 = k + 1" by simp
  have r: "0 \<le> int (k + 1) * 1440 + tb" "int (k + 1) * 1440 + tb < 10080" using assms k by auto
  have "int k * 1440 + ta + d = int (k + 1) * 1440 + tb" using assms by simp
  then show ?thesis using r unfolding m by (simp add: mod_pos_pos_trivial)
qed

lemma shifted_prev:
  assumes "k < 7" and "tb = ta + d + 1440" and "0 \<le> tb" "tb < 1440"
  shows "(int k * 1440 + ta + d) mod 10080 = int ((k + 6) mod 7) * 1440 + tb"
proof (cases "k = 0")
  case True
  then have e: "int k * 1440 + ta + d + 10080 = 8640 + tb" using assms by simp
  have "(int k * 1440 + ta + d) mod 10080 = (int k * 1440 + ta + d + 10080) mod 10080"
    by simp
  also have "\<dots> = (8640 + tb) mod 10080"
    by (simp only: e)
  finally have f: "(int k * 1440 + ta + d) mod 10080 = (8640 + tb) mod 10080" .
  have g: "(8640 + tb) mod 10080 = 8640 + tb"
    using assms(3,4) by (simp add: mod_pos_pos_trivial)
  have h: "int ((k + 6) mod 7) * 1440 + tb = 8640 + tb"
    using True by simp
  show ?thesis unfolding f g h ..
next
  case False
  then obtain j where j: "k = Suc j" by (cases k) auto
  then have m: "(k + 6) mod 7 = j" using assms by simp
  have r: "0 \<le> int j * 1440 + tb" "int j * 1440 + tb < 10080" using assms j by auto
  have "int k * 1440 + ta + d = int j * 1440 + tb" using assms j by simp
  then show ?thesis using r unfolding m by (simp add: mod_pos_pos_trivial)
qed



lemma as_int_PyInt: "as_int (PyInt d) = Some d"
  by (simp add: as_int_def)

lemma diff_alarm_int:
  "as_int v = Some d \<Longrightarrow> - 60 < d \<Longrightarrow> d < 60 \<Longrightarrow> diff_alarm a v = diff_alarm a (PyInt d)"
  unfolding diff_alarm_def as_int_PyInt by simp

lemma diff_alarm_out_of_range:
  "as_int v = Some n \<Longrightarrow> n < - 59 \<or> 59 < n \<Longrightarrow> diff_alarm a v = Inr None"
  by (auto simp add: diff_alarm_def report_int)

lemma diff_alarm_not_int:
  "as_int v = None \<Longrightarrow>
   diff_alarm a v = (case v of PyTuple xs \<Rightarrow> if length xs = 1 then Inr None else Inl TypeError
                              | _ \<Rightarrow> Inr None)"
  by (simp add: diff_alarm_def report_eq)

lemma instants_same:
  assumes "repeat b = repeat a"
    and "hour b * 60 + minute b = hour a * 60 + minute a + d"
    and "0 \<le> hour b * 60 + minute b" "hour b * 60 + minute b < 1440"
  shows "trigger_instants b = (\<lambda>t. (t + d) mod 10080) ` trigger_instants a"
proof (rule instants_rotate [where e = 0])
  fix k :: nat
  assume k: "k < 7"
  show "repeat b ! ((k + 0) mod 7) = repeat a ! k" using k assms(1) by simp
  show "(int k * 1440 + hour a * 60 + minute a + d) mod 10080 =
          int ((k + 0) mod 7) * 1440 + hour b * 60 + minute b"
    using shifted_same [OF k assms(2-4)] by (simp add: add.assoc)
qed simp

lemma instants_next:
  assumes "repeat b = [sunday a, monday a, tuesday a, wednesday a, thursday a, friday a, saturday a]"
    and "hour b * 60 + minute b = hour a * 60 + minute a + d - 1440"
    and "0 \<le> hour b * 60 + minute b" "hour b * 60 + minute b < 1440"
  shows "trigger_instants b = (\<lambda>t. (t + d) mod 10080) ` trigger_instants a"
proof (rule instants_rotate [where e = 1])
  fix k :: nat
  assume k: "k < 7"
  show "repeat b ! ((k + 1) mod 7) = repeat a ! k"
    unfolding assms(1) using less7_cases [OF k] by (elim disjE) (simp_all add: repeat_def)
  show "(int k * 1440 + hour a * 60 + minute a + d) mod 10080 =
          int ((k + 1) mod 7) * 1440 + hour b * 60 + minute b"
    using shifted_next [OF k assms(2-4)] by (simp add: add.assoc)
qed simp

lemma instants_prev:
  assumes "repeat b = [tuesday a, wednesday a, thursday a, friday a, saturday a, sunday a, monday a]"
    and "hour b * 60 + minute b = hour a * 60 + minute a + d + 1440"
    and "0 \<le> hour b * 60 + minute b" "hour b * 60 + minute b < 1440"
  shows "trigger_instants b = (\<lambda>t. (t + d) mod 10080) ` trigger_instants a"
proof (rule instants_rotate [where e = 6])
  fix k :: nat
  assume k: "k < 7"
  show "repeat b ! ((k + 6) mod 7) = repeat a ! k"
    unfolding assms(1) using less7_cases [OF k] by (elim disjE) (simp_all add: repeat_def)
  show "(int k * 1440 + hour a * 60 + minute a + d) mod 10080 =
          int ((k + 6) mod 7) * 1440 + hour b * 60 + minute b"
    using shifted_prev [OF k assms(2-4)] by (simp add: add.assoc)
qed simp


text \<open>
  C10. For a valid alarm and an integer \<open>d\<close> in -59..59, \<^verbatim>\<open>diff_alarm\<close> returns a new alarm
  whose weekly trigger instants are those of the original shifted by \<open>d\<close> minutes modulo
  10080, with the same enabled state and with identity and timestamp unset. (A Python boolean
  is of integer type and counts as 0 or 1.) For an integer outside -59..59 it returns
  \<^verbatim>\<open>None\<close>. For a value that is not of integer type it returns \<^verbatim>\<open>None\<close> as well, with one
  exception, where the claim fails: a tuple that does not hold exactly one value, such as
  \<^verbatim>\<open>(1, 2)\<close>, makes the error report \<^verbatim>\<open>'...%s!' % min_difference\<close> raise a TypeError
  before \<^verbatim>\<open>None\<close> is returned.
\<close>

theorem diff_alarm_result:
  assumes "0 \<le> hour a" "hour a \<le> 23" "0 \<le> minute a" "minute a \<le> 59"
  shows "(as_int v = Some d \<and> - 59 \<le> d \<and> d \<le> 59 \<longrightarrow>
           (\<exists>b. diff_alarm a v = Inr (Some b)
              \<and> trigger_instants b = (\<lambda>t. (t + d) mod 10080) ` trigger_instants a
              \<and> enabled b = enabled a \<and> alarm_id b = None \<and> timestamp b = None))
       \<and> ((\<exists>n. as_int v = Some n \<and> (n < - 59 \<or> 59 < n)) \<longrightarrow> diff_alarm a v = Inr None)
       \<and> (as_int v = None \<and> (\<forall>xs. v = PyTuple xs \<longrightarrow> length xs = 1) \<longrightarrow>
            diff_alarm a v = Inr None)
       \<and> (\<forall>xs. length xs \<noteq> 1 \<longrightarrow> diff_alarm a (PyTuple xs) = Inl TypeError)"
proof (intro conjI impI allI)
  assume "\<exists>n. as_int v = Some n \<and> (n < - 59 \<or> 59 < n)"
  then show "diff_alarm a v = Inr None" by (auto simp add: diff_alarm_out_of_range)
next
  assume "as_int v = None \<and> (\<forall>xs. v = PyTuple xs \<longrightarrow> length xs = 1)"
  then show "diff_alarm a v = Inr None"
    by (cases v) (simp_all add: diff_alarm_not_int)
next
  fix xs :: "pyval list"
  assume "length xs \<noteq> 1"
  then show "diff_alarm a (PyTuple xs) = Inl TypeError"
    by (simp add: diff_alarm_not_int as_int_def)
next
  assume v: "as_int v = Some d \<and> - 59 \<le> d \<and> d \<le> 59"
  then have d: "- 59 \<le> d" "d \<le> 59" and eq: "diff_alarm a v = diff_alarm a (PyInt d)"
    by (simp_all add: diff_alarm_int)
  let ?goal = "\<exists>b. diff_alarm a v = Inr (Some b)
              \<and> trigger_instants b = (\<lambda>t. (t + d) mod 10080) ` trigger_instants a
              \<and> enabled b = enabled a \<and> alarm_id b = None \<and> timestamp b = None"
  consider (plain) "0 \<le> minute a + d" "minute a + d < 60"
    | (next_hour) "60 \<le> minute a + d" "hour a < 23"
    | (next_day) "60 \<le> minute a + d" "hour a = 23"
    | (prev_hour) "minute a + d < 0" "0 < hour a"
    | (prev_day) "minute a + d < 0" "hour a = 0"
    using assms by linarith
  then show ?goal
  proof cases
    case plain
    let ?b = "\<lparr>alarm_id = None, hour = hour a, minute = minute a + d, enabled = enabled a,
            monday = monday a, tuesday = tuesday a, wednesday = wednesday a, thursday = thursday a,
            friday = friday a, saturday = saturday a, sunday = sunday a,
            label = diff_label a d, timestamp = None, station_id = None\<rparr>"
    show ?thesis
    proof (intro exI [where x = ?b] conjI)
      show "diff_alarm a v = Inr (Some ?b)"
        unfolding eq by (rule diff_alarm_plain [OF assms(1,2) d plain])
      show "trigger_instants ?b = (\<lambda>t. (t + d) mod 10080) ` trigger_instants a"
        by (rule instants_same) (use assms d plain in \<open>simp_all add: repeat_def\<close>)
    qed simp_all
  next
    case next_hour
    let ?b = "\<lparr>alarm_id = None, hour = hour a + 1, minute = minute a + d - 60, enabled = enabled a,
            monday = monday a, tuesday = tuesday a, wednesday = wednesday a, thursday = thursday a,
            friday = friday a, saturday = saturday a, sunday = sunday a,
            label = diff_label a d, timestamp = None, station_id = None\<rparr>"
    show ?thesis
    proof (intro exI [where x = ?b] conjI)
      show "diff_alarm a v = Inr (Some ?b)"
        unfolding eq by (rule diff_alarm_next_hour [OF assms(1) next_hour(2) d next_hour(1) assms(4)])
      show "trigger_instants ?b = (\<lambda>t. (t + d) mod 10080) ` trigger_instants a"
        by (rule instants_same) (use assms d next_hour in \<open>simp_all add: repeat_def\<close>)
    qed simp_all
  next
    case next_day
    let ?b = "\<lparr>alarm_id = None, hour = 0, minute = minute a + d - 60, enabled = enabled a,
            monday = sunday a, tuesday = monday a, wednesday = tuesday a, thursday = wednesday a,
            friday = thursday a, saturday = friday a, sunday = saturday a,
            label = diff_label a d, timestamp = None, station_id = None\<rparr>"
    show ?thesis
    proof (intro exI [where x = ?b] conjI)
      show "diff_alarm a v = Inr (Some ?b)"
        unfolding eq by (rule diff_alarm_next_day [OF next_day(2) d next_day(1) assms(4)])
      show "trigger_instants ?b = (\<lambda>t. (t + d) mod 10080) ` trigger_instants a"
        by (rule instants_next) (use assms d next_day in \<open>simp_all add: repeat_def\<close>)
    qed simp_all
  next
    case prev_hour
    let ?b = "\<lparr>alarm_id = None, hour = hour a - 1, minute = minute a + d + 60, enabled = enabled a,
            monday = monday a, tuesday = tuesday a, wednesday = wednesday a, thursday = thursday a,
            friday = friday a, saturday = saturday a, sunday = sunday a,
            label = diff_label a d, timestamp = None, station_id = None\<rparr>"
    show ?thesis
    proof (intro exI [where x = ?b] conjI)
      show "diff_alarm a v = Inr (Some ?b)"
        unfolding eq by (rule diff_alarm_prev_hour [OF prev_hour(2) assms(2) d prev_hour(1) assms(3)])
      show "trigger_instants ?b = (\<lambda>t. (t + d) mod 10080) ` trigger_instants a"
        by (rule instants_same) (use assms d prev_hour in \<open>simp_all add: repeat_def\<close>)
    qed simp_all
  next
    case prev_day
    let ?b = "\<lparr>alarm_id = None, hour = 23, minute = minute a + d + 60, enabled = enabled a,
            monday = tuesday a, tuesday = wednesday a, wednesday = thursday a, thursday = friday a,
            friday = saturday a, saturday = sunday a, sunday = monday a,
            label = diff_label a d, timestamp = None, station_id = None\<rparr>"
    show ?thesis
    proof (intro exI [where x = ?b] conjI)
      show "diff_alarm a v = Inr (Some ?b)"
        unfolding eq by (rule diff_alarm_prev_day [OF prev_day(2) d prev_day(1) assms(3)])
      show "trigger_instants ?b = (\<lambda>t. (t + d) mod 10080) ` trigger_instants a"
        by (rule instants_prev) (use assms d prev_day in \<open>simp_all add: repeat_def\<close>)
    qed simp_all
  qed
qed

theorem diff_alarm_result_witness:
  "(\<exists>b. diff_alarm (monday_only 0 10 blank_instance) (PyInt (- 20)) = Inr (Some b)
        \<and> trigger_instants b = {10070} \<and> enabled b = False \<and> alarm_id b = None
        \<and> timestamp b = None)
   \<and> diff_alarm (monday_only 0 10 blank_instance) (PyInt 60) = Inr None
   \<and> diff_alarm (monday_only 0 10 blank_instance) (PyStr ''soon'') = Inr None
   \<and> diff_alarm (monday_only 0 10 blank_instance) (PyTuple [PyInt 1, PyInt 2]) = Inl TypeError"
  using diff_alarm_result [of "monday_only 0 10 blank_instance" "PyInt (- 20)" "- 20"]
    diff_alarm_result [of "monday_only 0 10 blank_instance" "PyInt 60" 0]
    diff_alarm_result [of "monday_only 0 10 blank_instance" "PyStr ''soon''" 0]
    diff_alarm_result [of "monday_only 0 10 blank_instance" PyNone 0, THEN conjunct2,
      THEN conjunct2, THEN conjunct2, rule_format, where xs = "[PyInt 1, PyInt 2]"]
  by (simp add: monday_only_def blank_instance_def as_int_def trigger_instants_def repeat_def)


section \<open>Properties of the accessors and the constructor\<close>

lemmas new_unfold = AlarmItem_new_def and_then_def set_hour_def set_minute_def set_repeat_def
  set_enabled_def set_label_def set_station_id_def set_timestamp_def set_id_def as_int_def
  py_len_def py_tuple_def is_bool_type_def the_bool_def blank_instance_def py_eq_int_def
  py_eq_bool_def py_eq_opt_int_def py_eq_str_def repeat_def py_str_def default_days_def
  report_eq Let_def

text \<open>
  An accessor that rejects a value reports it and leaves the instance as it is. The report
  itself raises a TypeError when the value is a tuple that does not hold exactly one value
  (lemma \<open>report_eq\<close>).
\<close>

lemma rejected_value_keeps_field:
  "as_int v = None \<or> (\<exists>n. as_int v = Some n \<and> (n < 0 \<or> 24 \<le> n)) \<Longrightarrow>
     set_hour v a = report v a"
  "as_int v = None \<or> (\<exists>n. as_int v = Some n \<and> (n < 0 \<or> 60 \<le> n)) \<Longrightarrow>
     set_minute v a = report v a"
  "\<not> is_bool_type v \<Longrightarrow> set_enabled v a = report v a"
  "as_int v = None \<or> (\<exists>n. as_int v = Some n \<and> n < 0) \<Longrightarrow> set_id v a = report v a"
  "as_int v = None \<or> (\<exists>n. as_int v = Some n \<and> n < 0) \<Longrightarrow> set_timestamp v a = report v a"
  "as_int v = None \<or> (\<exists>n. as_int v = Some n \<and> n < 0) \<Longrightarrow> set_station_id v a = report v a"
  by (auto simp add: set_hour_def set_minute_def set_enabled_def set_id_def set_timestamp_def
      set_station_id_def is_bool_type_def split: pyval.splits)

lemma report_keeps: "report v a = Inr a \<or> report v a = Inl TypeError"
  by (simp add: report_eq split: pyval.splits)

lemma rejected_repeat_keeps_flags:
  "py_len v = Inr n \<Longrightarrow> n \<noteq> 7 \<Longrightarrow> set_repeat v a = Inr a"
  "py_tuple v = Inr ds \<Longrightarrow> \<not> list_all is_bool_type ds \<Longrightarrow> set_repeat v a = Inr a"
  "py_len v = Inl e \<Longrightarrow> set_repeat v a = Inl e"
  by (auto simp add: set_repeat_def py_len_def py_tuple_def split: pyval.splits)

text \<open>
  C9 at the input \<^verbatim>\<open>AlarmItem(0, 0, enabled=0)\<close>: the accessor rejects the integer 0 for the
  boolean field and leaves it at \<^verbatim>\<open>False\<close>, and the constructor, which compares the field
  with the argument by \<^verbatim>\<open>!=\<close>, finds \<^verbatim>\<open>False != 0\<close> false and returns the instance.
\<close>

theorem constructor_returns_instance_for_rejected_enabled:
  "set_enabled (PyInt 0) blank_instance = Inr blank_instance
   \<and> AlarmItem_new (PyInt 0) (PyInt 0) default_days (PyInt 0) (PyStr []) PyNone PyNone PyNone
       = Inr (Some blank_instance)"
  by (simp add: new_unfold)

theorem constructor_returns_instance_for_rejected_enabled_witness:
  "AlarmItem_new (PyInt 0) (PyInt 0) default_days (PyInt 0) (PyStr []) PyNone PyNone PyNone
     \<noteq> Inr None"
  using constructor_returns_instance_for_rejected_enabled by simp

section \<open>Properties of edit_alarm\<close>

lemma hour_item_eq:
  "hour_item v = (case as_int v of
       Some n \<Rightarrow> if 0 \<le> n \<and> n < 24 then Inr (Some (blank_instance\<lparr>hour := n, enabled := True\<rparr>))
                 else Inr None
     | None \<Rightarrow> report v None)"
  by (cases v) (auto simp add: hour_item_def new_unfold)

lemma minute_item_eq:
  "minute_item v = (case as_int v of
       Some n \<Rightarrow> if 0 \<le> n \<and> n < 60 then Inr (Some (blank_instance\<lparr>minute := n, enabled := True\<rparr>))
                 else Inr None
     | None \<Rightarrow> report v None)"
  by (cases v) (auto simp add: minute_item_def new_unfold)

lemma station_item_eq:
  "station_item v = (case as_int v of
       Some n \<Rightarrow> if 0 \<le> n then Inr (Some (blank_instance\<lparr>enabled := True, station_id := Some n\<rparr>))
                 else Inr None
     | None \<Rightarrow> if v = PyNone then Inr (Some (blank_instance\<lparr>enabled := True\<rparr>))
               else report v None)"
  by (cases v) (auto simp add: station_item_def new_unfold)

lemma enabled_item_bool:
  "enabled_item (PyBool b) = Inr (Some (blank_instance\<lparr>enabled := b\<rparr>))"
  by (simp add: enabled_item_def new_unfold)

lemma label_item_str:
  "label_item (PyStr l) = Inr (Some (blank_instance\<lparr>enabled := True, label := l\<rparr>))"
  by (simp add: label_item_def new_unfold)

lemma label_item_malformed:
  "v \<noteq> PyNone \<Longrightarrow> \<not> well_formed_label v \<Longrightarrow> label_item v = Inr None"
  by (cases v) (simp_all add: label_item_def well_formed_label_def new_unfold)

lemma days_item_bools:
  "days_item (PyTuple [PyBool d0, PyBool d1, PyBool d2, PyBool d3, PyBool d4, PyBool d5, PyBool d6])
     = Inr (Some (blank_instance\<lparr>enabled := True, monday := d0, tuesday := d1, wednesday := d2,
          thursday := d3, friday := d4, saturday := d5, sunday := d6\<rparr>))"
  "days_item (PyList [PyBool d0, PyBool d1, PyBool d2, PyBool d3, PyBool d4, PyBool d5, PyBool d6])
     = Inr (Some (blank_instance\<lparr>enabled := True, monday := d0, tuesday := d1, wednesday := d2,
          thursday := d3, friday := d4, saturday := d5, sunday := d6\<rparr>))"
  by (simp_all add: days_item_def new_unfold)

lemma seven_bools:
  assumes "length xs = 7" "list_all is_bool_type xs"
  shows "\<exists>d0 d1 d2 d3 d4 d5 d6.
           xs = [PyBool d0, PyBool d1, PyBool d2, PyBool d3, PyBool d4, PyBool d5, PyBool d6]"
proof -
  from assms(1) obtain x0 x1 x2 x3 x4 x5 x6 where xs: "xs = [x0, x1, x2, x3, x4, x5, x6]"
    by (auto simp add: length_Suc_conv eval_nat_numeral)
  have b: "is_bool_type x \<Longrightarrow> \<exists>d. x = PyBool d" for x
    by (cases x) (simp_all add: is_bool_type_def)
  from assms(2) xs show ?thesis by (auto dest!: b)
qed

lemma days_item_well_formed:
  assumes "well_formed_days v"
  shows "days_item v
     = Inr (Some (blank_instance\<lparr>enabled := True, monday := the_flag v 0, tuesday := the_flag v 1,
          wednesday := the_flag v 2, thursday := the_flag v 3, friday := the_flag v 4,
          saturday := the_flag v 5, sunday := the_flag v 6\<rparr>))"
proof (cases v)
  case (PyTuple xs)
  with assms have "length xs = 7" "list_all is_bool_type xs" by (simp_all add: well_formed_days_def)
  from seven_bools [OF this] PyTuple show ?thesis
    by (auto simp add: days_item_bools the_flag_def the_bool_def)
next
  case (PyList xs)
  with assms have "length xs = 7" "list_all is_bool_type xs" by (simp_all add: well_formed_days_def)
  from seven_bools [OF this] PyList show ?thesis
    by (auto simp add: days_item_bools the_flag_def the_bool_def)
qed (use assms in \<open>simp_all add: well_formed_days_def\<close>)


lemma on_key_id: "on_key key (\<lambda>r. r) rows = rows"
  by (simp add: on_key_def)

lemma list_ex_on_key:
  "(\<And>r. alarm_id (W r) = alarm_id r) \<Longrightarrow>
   list_ex (\<lambda>r. alarm_id r = Some key) (on_key key W rows) = list_ex (\<lambda>r. alarm_id r = Some key) rows"
  by (induction rows) (simp_all add: on_key_def)

lemma on_key_on_key:
  "(\<And>r. alarm_id (W r) = alarm_id r) \<Longrightarrow>
   on_key key V (on_key key W rows) = on_key key (\<lambda>r. V (W r)) rows"
  by (induction rows) (simp_all add: on_key_def)

lemma edit_column_closed:
  assumes "list_ex (\<lambda>r. alarm_id r = Some key) rows"
    and "\<And>r. alarm_id (W r) = alarm_id r"
    and "\<And>e. supplied \<Longrightarrow> made \<noteq> Inl e"
  shows "edit_column key supplied made write (Inr s, on_key key W rows) =
           (Inr (s \<and> col_ok supplied made),
            on_key key (\<lambda>r. apply_col supplied made write (W r)) rows)"
proof (cases supplied)
  case False
  then show ?thesis
    by (simp add: edit_column_def col_ok_def apply_col_def split: sum.splits option.splits)
next
  case True
  show ?thesis
  proof (cases made)
    case (Inl e)
    with True assms(3) [of e] show ?thesis by simp
  next
    case (Inr m)
    show ?thesis
    proof (cases m)
      case None
      with Inr True show ?thesis
        by (simp add: edit_column_def col_ok_def apply_col_def)
    next
      case (Some i)
      have "table_update key (write i) (on_key key W rows) =
              (True, on_key key (\<lambda>r. write i (W r)) rows)"
        unfolding table_update_def
        using assms(1,2) by (simp add: list_ex_on_key on_key_on_key) (simp add: on_key_def)
      with Inr Some True show ?thesis
        by (simp add: edit_column_def col_ok_def apply_col_def)
    qed
  qed
qed

lemma apply_col_id [simp]: "alarm_id (apply_col supplied made (\<lambda>i r. r\<lparr>hour := hour i\<rparr>) r) = alarm_id r"
  "alarm_id (apply_col supplied made (\<lambda>i r. r\<lparr>minute := minute i\<rparr>) r) = alarm_id r"
  "alarm_id (apply_col supplied made (\<lambda>i r. r\<lparr>enabled := enabled i\<rparr>) r) = alarm_id r"
  "alarm_id (apply_col supplied made (\<lambda>i r. r\<lparr>label := label i\<rparr>) r) = alarm_id r"
  "alarm_id (apply_col supplied made (\<lambda>i r. r\<lparr>station_id := station_id i\<rparr>) r) = alarm_id r"
  "alarm_id (apply_col supplied made (\<lambda>i r. r\<lparr>monday := monday i, tuesday := tuesday i,
       wednesday := wednesday i, thursday := thursday i, friday := friday i, saturday := saturday i,
       sunday := sunday i\<rparr>) r) = alarm_id r"
  by (simp_all add: apply_col_def split: sum.splits option.splits)

lemma edit_alarm_closed:
  assumes stored: "list_ex (\<lambda>r. alarm_id r = Some key) rows"
    and "hour_arg = PyNone \<or> (\<forall>e. hour_item hour_arg \<noteq> Inl e)"
    and "minute_arg = PyNone \<or> (\<forall>e. minute_item minute_arg \<noteq> Inl e)"
    and "days = PyNone \<or> (\<forall>e. days_item days \<noteq> Inl e)"
    and "enabled_arg = PyNone \<or> (\<forall>e. enabled_item enabled_arg \<noteq> Inl e)"
    and "label_arg = PyNone \<or> (\<forall>e. label_item label_arg \<noteq> Inl e)"
    and "station_arg = PyNone \<or> (\<forall>e. station_item station_arg \<noteq> Inl e)"
  shows "edit_alarm key hour_arg minute_arg days enabled_arg label_arg station_arg now rows =
     stamp key now
       (Inr (col_ok (hour_arg \<noteq> PyNone) (hour_item hour_arg)
             \<and> col_ok (minute_arg \<noteq> PyNone) (minute_item minute_arg)
             \<and> col_ok (days \<noteq> PyNone) (days_item days)
             \<and> col_ok (enabled_arg \<noteq> PyNone) (enabled_item enabled_arg)
             \<and> col_ok (label_arg \<noteq> PyNone) (label_item label_arg)
             \<and> col_ok (station_arg \<noteq> PyNone) (station_item station_arg)),
        on_key key (edited_row hour_arg minute_arg days enabled_arg label_arg station_arg) rows)"
proof -
  have nr: "\<And>e. hour_arg \<noteq> PyNone \<Longrightarrow> hour_item hour_arg \<noteq> Inl e"
    "\<And>e. minute_arg \<noteq> PyNone \<Longrightarrow> minute_item minute_arg \<noteq> Inl e"
    "\<And>e. days \<noteq> PyNone \<Longrightarrow> days_item days \<noteq> Inl e"
    "\<And>e. enabled_arg \<noteq> PyNone \<Longrightarrow> enabled_item enabled_arg \<noteq> Inl e"
    "\<And>e. label_arg \<noteq> PyNone \<Longrightarrow> label_item label_arg \<noteq> Inl e"
    "\<And>e. station_arg \<noteq> PyNone \<Longrightarrow> station_item station_arg \<noteq> Inl e"
    using assms(2-7) by blast+
  have start: "(Inr True, rows) = (Inr True, on_key key (\<lambda>r. r) rows)"
    by (simp add: on_key_id)
  show ?thesis
    unfolding edit_alarm_def start
    by (simp add: edit_column_closed [OF stored] nr edited_row_def [abs_def] conj_ac)
qed

lemma stamp_failed: "stamp key now (Inr False, rows) = (Inr False, rows)"
  by (simp add: stamp_def)

text \<open>
  One block of \<^verbatim>\<open>edit_alarm\<close> for an argument that is omitted, well formed, or turned down
  by the constructor with \<^verbatim>\<open>None\<close>: no exception, success exactly when the argument is
  omitted or well formed, and the field written exactly when it is well formed.
\<close>

lemma column_cases:
  assumes "v = PyNone \<or> good \<or> made = Inr None"
    and "good \<longrightarrow> v \<noteq> PyNone \<and> made = Inr (Some i)"
  shows "apply_col (v \<noteq> PyNone) made write r = (if good then write i r else r)"
    and "col_ok (v \<noteq> PyNone) made \<longleftrightarrow> v = PyNone \<or> good"
    and "v = PyNone \<or> (\<forall>e. made \<noteq> Inl e)"
  using assms by (auto simp add: apply_col_def col_ok_def split: sum.splits option.splits)

lemma well_formed_made:
  "well_formed_hour v \<longrightarrow>
     v \<noteq> PyNone \<and> hour_item v = Inr (Some (blank_instance\<lparr>hour := the_int v, enabled := True\<rparr>))"
  "well_formed_minute v \<longrightarrow>
     v \<noteq> PyNone \<and> minute_item v = Inr (Some (blank_instance\<lparr>minute := the_int v, enabled := True\<rparr>))"
  "well_formed_enabled v \<longrightarrow>
     v \<noteq> PyNone \<and> enabled_item v = Inr (Some (blank_instance\<lparr>enabled := the_bool v\<rparr>))"
  "well_formed_label v \<longrightarrow>
     v \<noteq> PyNone \<and> label_item v = Inr (Some (blank_instance\<lparr>enabled := True, label := py_str v\<rparr>))"
  "well_formed_station v \<longrightarrow>
     v \<noteq> PyNone
     \<and> station_item v = Inr (Some (blank_instance\<lparr>enabled := True, station_id := as_int v\<rparr>))"
  "well_formed_days v \<longrightarrow>
     v \<noteq> PyNone
     \<and> days_item v
         = Inr (Some (blank_instance\<lparr>enabled := True, monday := the_flag v 0,
              tuesday := the_flag v 1, wednesday := the_flag v 2, thursday := the_flag v 3,
              friday := the_flag v 4, saturday := the_flag v 5, sunday := the_flag v 6\<rparr>))"
proof -
  show "well_formed_hour v \<longrightarrow>
     v \<noteq> PyNone \<and> hour_item v = Inr (Some (blank_instance\<lparr>hour := the_int v, enabled := True\<rparr>))"
    by (auto simp add: well_formed_hour_def hour_item_eq the_int_def as_int_def
        split: option.splits pyval.splits)
  show "well_formed_minute v \<longrightarrow>
     v \<noteq> PyNone \<and> minute_item v = Inr (Some (blank_instance\<lparr>minute := the_int v, enabled := True\<rparr>))"
    by (auto simp add: well_formed_minute_def minute_item_eq the_int_def as_int_def
        split: option.splits pyval.splits)
  show "well_formed_enabled v \<longrightarrow>
     v \<noteq> PyNone \<and> enabled_item v = Inr (Some (blank_instance\<lparr>enabled := the_bool v\<rparr>))"
    by (cases v) (simp_all add: well_formed_enabled_def is_bool_type_def enabled_item_bool the_bool_def)
  show "well_formed_label v \<longrightarrow>
     v \<noteq> PyNone \<and> label_item v = Inr (Some (blank_instance\<lparr>enabled := True, label := py_str v\<rparr>))"
    by (cases v) (simp_all add: well_formed_label_def label_item_str py_str_def)
  show "well_formed_station v \<longrightarrow>
     v \<noteq> PyNone
     \<and> station_item v = Inr (Some (blank_instance\<lparr>enabled := True, station_id := as_int v\<rparr>))"
    by (auto simp add: well_formed_station_def station_item_eq as_int_def
        split: option.splits pyval.splits)
  show "well_formed_days v \<longrightarrow>
     v \<noteq> PyNone
     \<and> days_item v
         = Inr (Some (blank_instance\<lparr>enabled := True, monday := the_flag v 0,
              tuesday := the_flag v 1, wednesday := the_flag v 2, thursday := the_flag v 3,
              friday := the_flag v 4, saturday := the_flag v 5, sunday := the_flag v 6\<rparr>))"
    using days_item_well_formed [of v] by (auto simp add: well_formed_days_def)
qed

lemma if_update:
  "(if c then r\<lparr>hour := h\<rparr> else r) = r\<lparr>hour := (if c then h else hour r)\<rparr>"
  "(if c then r\<lparr>minute := h\<rparr> else r) = r\<lparr>minute := (if c then h else minute r)\<rparr>"
  "(if c then r\<lparr>enabled := e\<rparr> else r) = r\<lparr>enabled := (if c then e else enabled r)\<rparr>"
  "(if c then r\<lparr>label := l\<rparr> else r) = r\<lparr>label := (if c then l else label r)\<rparr>"
  "(if c then r\<lparr>station_id := s\<rparr> else r) = r\<lparr>station_id := (if c then s else station_id r)\<rparr>"
  "(if c then r\<lparr>monday := d0, tuesday := d1, wednesday := d2, thursday := d3, friday := d4,
                 saturday := d5, sunday := d6\<rparr> else r)
     = r\<lparr>monday := (if c then d0 else monday r), tuesday := (if c then d1 else tuesday r),
         wednesday := (if c then d2 else wednesday r), thursday := (if c then d3 else thursday r),
         friday := (if c then d4 else friday r), saturday := (if c then d5 else saturday r),
         sunday := (if c then d6 else sunday r)\<rparr>"
  by simp_all

text \<open>
  C5 as stated fails: an edit of the stored alarm with a good hour and a minute out of range
  reports failure, yet the hour has been written.
\<close>

theorem edit_alarm_partial_write:
  "edit_alarm 1 (PyInt 5) (PyInt 99) PyNone PyNone PyNone PyNone 2000 [stored_alarm]
     = (Inr False, [stored_alarm\<lparr>hour := 5\<rparr>])
   \<and> stored_alarm\<lparr>hour := 5\<rparr> \<noteq> stored_alarm"
  by (simp add: edit_alarm_def edit_column_def stamp_def table_update_def hour_item_eq
      minute_item_eq as_int_def report_eq stored_alarm_def blank_instance_def)

text \<open>
  Two more ways in which a malformed argument gets past \<^verbatim>\<open>edit_alarm\<close>, both of them
  slips and left out of the amended claim. The integer 0 for the boolean field is let through by
  the constructor (see C9): the call reports success and writes \<^verbatim>\<open>False\<close>. A tuple of two
  values for the hour makes the error report of the accessor raise a TypeError.
\<close>

lemma edit_alarm_accepts_enabled_zero:
  "edit_alarm 1 PyNone PyNone PyNone (PyInt 0) PyNone PyNone 2000 [stored_alarm]
     = (Inr True, [stored_alarm\<lparr>enabled := False, timestamp := Some 2000\<rparr>])"
  by (simp add: edit_alarm_def edit_column_def stamp_def table_update_def enabled_item_def
      new_unfold stored_alarm_def)

lemma edit_alarm_raises_on_pair:
  "edit_alarm 1 (PyTuple [PyInt 1, PyInt 2]) PyNone PyNone PyNone PyNone PyNone 2000 [stored_alarm]
     = (Inl TypeError, [stored_alarm])"
  by (simp add: edit_alarm_def edit_column_def stamp_def hour_item_eq as_int_def report_eq)

text \<open>
  C5, amended. Take a stored alarm and a call of \<^verbatim>\<open>edit_alarm\<close> in which at least one
  supplied argument is malformed, and in which the constructor of \<^verbatim>\<open>AlarmItem\<close> returns
  \<^verbatim>\<open>None\<close> for every malformed supplied argument (for a malformed label of this model it
  always does).
  Then the call reports failure, and in the stored alarm every field whose argument is well
  formed holds the new value, while every other field, whether its argument was omitted or
  malformed, the identity and the timestamp are as they were; the other rows are untouched.
\<close>

theorem edit_alarm_rejected_field:
  assumes stored: "list_ex (\<lambda>r. alarm_id r = Some key) rows"
    and h: "hour_arg = PyNone \<or> well_formed_hour hour_arg \<or> hour_item hour_arg = Inr None"
    and m: "minute_arg = PyNone \<or> well_formed_minute minute_arg
              \<or> minute_item minute_arg = Inr None"
    and d: "days = PyNone \<or> well_formed_days days \<or> days_item days = Inr None"
    and e: "enabled_arg = PyNone \<or> well_formed_enabled enabled_arg
              \<or> enabled_item enabled_arg = Inr None"
    and s: "station_arg = PyNone \<or> well_formed_station station_arg
              \<or> station_item station_arg = Inr None"
    and malformed:
      "(hour_arg \<noteq> PyNone \<and> \<not> well_formed_hour hour_arg)
       \<or> (minute_arg \<noteq> PyNone \<and> \<not> well_formed_minute minute_arg)
       \<or> (days \<noteq> PyNone \<and> \<not> well_formed_days days)
       \<or> (enabled_arg \<noteq> PyNone \<and> \<not> well_formed_enabled enabled_arg)
       \<or> (label_arg \<noteq> PyNone \<and> \<not> well_formed_label label_arg)
       \<or> (station_arg \<noteq> PyNone \<and> \<not> well_formed_station station_arg)"
  shows "edit_alarm key hour_arg minute_arg days enabled_arg label_arg station_arg now rows
     = (Inr False,
        map (\<lambda>r. if alarm_id r = Some key
                 then merged_row hour_arg minute_arg days enabled_arg label_arg station_arg r
                 else r) rows)"
proof -
  have l: "label_arg = PyNone \<or> well_formed_label label_arg \<or> label_item label_arg = Inr None"
    using label_item_malformed [of label_arg] by blast
  note ch = column_cases [OF h well_formed_made(1)]
  note cm = column_cases [OF m well_formed_made(2)]
  note ce = column_cases [OF e well_formed_made(3)]
  note cl = column_cases [OF l well_formed_made(4)]
  note cs = column_cases [OF s well_formed_made(5)]
  note cd = column_cases [OF d well_formed_made(6)]
  have not_ok: "\<not> (col_ok (hour_arg \<noteq> PyNone) (hour_item hour_arg)
             \<and> col_ok (minute_arg \<noteq> PyNone) (minute_item minute_arg)
             \<and> col_ok (days \<noteq> PyNone) (days_item days)
             \<and> col_ok (enabled_arg \<noteq> PyNone) (enabled_item enabled_arg)
             \<and> col_ok (label_arg \<noteq> PyNone) (label_item label_arg)
             \<and> col_ok (station_arg \<noteq> PyNone) (station_item station_arg))"
    unfolding ch(2) cm(2) ce(2) cl(2) cs(2) cd(2) using malformed by blast
  have row: "edited_row hour_arg minute_arg days enabled_arg label_arg station_arg r
      = merged_row hour_arg minute_arg days enabled_arg label_arg station_arg r" for r
    unfolding edited_row_def ch(1) cm(1) ce(1) cl(1) cs(1) cd(1) if_update merged_row_def
    by (simp split del: if_split cong: if_cong)
  note closed = edit_alarm_closed [of key rows hour_arg minute_arg days enabled_arg label_arg
      station_arg now, OF stored ch(3) cm(3) cd(3) ce(3) cl(3) cs(3)]
  from not_ok
  have "edit_alarm key hour_arg minute_arg days enabled_arg label_arg station_arg now rows
      = (Inr False,
         on_key key (edited_row hour_arg minute_arg days enabled_arg label_arg station_arg) rows)"
    unfolding closed by (simp only: stamp_failed simp_thms)
  then show ?thesis
    by (simp only: on_key_def row)
qed

theorem edit_alarm_rejected_field_witness:
  "edit_alarm 1 (PyInt 5) (PyInt 99) PyNone PyNone PyNone PyNone 2000 [stored_alarm]
     = (Inr False, [stored_alarm\<lparr>hour := 5\<rparr>])
   \<and> edit_alarm 1 PyNone PyNone (PyList (replicate 7 (PyBool True))) PyNone (PyInt 5)
        (PyInt 3) 2000 [stored_alarm, sleeper]
     = (Inr False,
        [stored_alarm\<lparr>tuesday := True, wednesday := True, thursday := True, friday := True,
           saturday := True, sunday := True, station_id := Some 3\<rparr>, sleeper])"
proof -
  have stored: "list_ex (\<lambda>r. alarm_id r = Some 1) [stored_alarm]"
    "list_ex (\<lambda>r. alarm_id r = Some 1) [stored_alarm, sleeper]"
    by (simp_all add: stored_alarm_def)
  have first: "edit_alarm 1 (PyInt 5) (PyInt 99) PyNone PyNone PyNone PyNone 2000 [stored_alarm]
     = (Inr False, [stored_alarm\<lparr>hour := 5\<rparr>])"
    using edit_alarm_rejected_field [OF stored(1), of "PyInt 5" "PyInt 99" PyNone PyNone PyNone
        PyNone 2000]
    by (simp add: well_formed_hour_def well_formed_minute_def minute_item_eq as_int_def
        merged_row_def the_int_def well_formed_days_def well_formed_enabled_def is_bool_type_def
        well_formed_label_def well_formed_station_def stored_alarm_def)
  have second: "edit_alarm 1 PyNone PyNone (PyList (replicate 7 (PyBool True))) PyNone (PyInt 5)
        (PyInt 3) 2000 [stored_alarm, sleeper]
     = (Inr False,
        [stored_alarm\<lparr>tuesday := True, wednesday := True, thursday := True, friday := True,
           saturday := True, sunday := True, station_id := Some 3\<rparr>, sleeper])"
    using edit_alarm_rejected_field [OF stored(2), of PyNone PyNone
        "PyList (replicate 7 (PyBool True))" PyNone "PyInt 3" "PyInt 5" 2000]
    by (simp add: well_formed_hour_def well_formed_minute_def as_int_def merged_row_def
        the_int_def well_formed_days_def well_formed_enabled_def is_bool_type_def
        well_formed_label_def well_formed_station_def stored_alarm_def sleeper_def
        eval_nat_numeral the_flag_def the_bool_def)
  from first second show ?thesis by simp
qed

section \<open>Properties of the alarm manager\<close>

lemma remove_thread_nth:
  "distinct (map thread_ref ts) \<Longrightarrow> i < length ts \<Longrightarrow>
   remove_thread (thread_ref (ts ! i)) ts = take i ts @ drop (Suc i) ts"
proof (induction ts arbitrary: i)
  case Nil
  then show ?case by simp
next
  case (Cons t ts)
  show ?case
  proof (cases i)
    case 0
    then show ?thesis by simp
  next
    case (Suc j)
    with Cons.prems have "ts ! j \<in> set ts" and "thread_ref t \<notin> thread_ref ` set ts"
      by simp_all
    then have "thread_ref (ts ! j) \<noteq> thread_ref t" by (metis imageI)
    with Suc Cons show ?thesis by simp
  qed
qed

lemma filter_other_ids:
  "distinct (map get_id ts) \<Longrightarrow> i < length ts \<Longrightarrow>
   filter (\<lambda>t. get_id t \<noteq> get_id (ts ! i)) ts = take i ts @ drop (Suc i) ts"
proof (induction ts arbitrary: i)
  case Nil
  then show ?case by simp
next
  case (Cons t ts)
  show ?case
  proof (cases i)
    case 0
    from Cons.prems have "get_id t \<notin> get_id ` set ts" by simp
    then have "\<forall>u\<in>set ts. get_id u \<noteq> get_id t" by (metis imageI)
    with 0 show ?thesis by (simp add: filter_id_conv)
  next
    case (Suc j)
    with Cons.prems have "ts ! j \<in> set ts" and "get_id t \<notin> get_id ` set ts"
      by simp_all
    then have "get_id (ts ! j) \<noteq> get_id t" by (metis imageI)
    with Suc Cons show ?thesis by auto
  qed
qed

lemma stop_loop_done:
  "\<forall>j. i \<le> j \<and> j < length ts \<longrightarrow> get_id (ts ! j) \<noteq> a \<Longrightarrow> stop_loop obeys a i s ts = (s, ts)"
proof (induction "length ts - i" arbitrary: i)
  case 0
  then show ?case by (subst stop_loop.simps) simp
next
  case (Suc n)
  then have i: "i < length ts" and n: "n = length ts - (i + 1)" by simp_all
  from Suc.prems i have "get_id (ts ! i) \<noteq> a" by simp
  moreover have "stop_loop obeys a (i + 1) s ts = (s, ts)"
    using Suc.hyps(1) [OF n] Suc.prems by simp
  ultimately show ?case using i by (subst stop_loop.simps) auto
qed

lemma stop_loop_skip:
  "i < length ts \<Longrightarrow> get_id (ts ! i) \<noteq> a \<Longrightarrow>
   stop_loop obeys a i s ts = stop_loop obeys a (i + 1) s ts"
  by (subst stop_loop.simps) auto

lemma stop_loop_match:
  assumes ids: "distinct (map get_id ts)" and refs: "distinct (map thread_ref ts)"
    and i: "i < length ts" and a: "get_id (ts ! i) = a"
  shows "stop_loop obeys a i s ts =
          (if alive (ts ! i) \<and> \<not> obeys (thread_ref (ts ! i)) then (False, ts)
           else (True, filter (\<lambda>t. get_id t \<noteq> a) ts))"
proof -
  let ?t = "ts ! i"
  let ?stopped = "stop_and_wait obeys ?t"
  have others: "get_id (ts ! j) \<noteq> a" if "j < length ts" "j \<noteq> i" for j
    using ids that i a by (metis distinct_conv_nth length_map nth_map)
  show ?thesis
  proof (cases "alive ?t \<and> \<not> obeys (thread_ref ?t)")
    case True
    then have same: "?stopped = ?t" by (simp add: stop_and_wait_def)
    have "stop_loop obeys a (i + 1) False ts = (False, ts)"
      by (rule stop_loop_done) (use others in auto)
    with True i a same show ?thesis
      by (subst stop_loop.simps) (simp add: Let_def)
  next
    case False
    then have dead: "\<not> alive ?stopped" and ref: "thread_ref ?stopped = thread_ref ?t"
      by (auto simp add: stop_and_wait_def)
    let ?ts' = "ts[i := ?stopped]"
    have "map thread_ref ?ts' = map thread_ref ts"
    proof (rule nth_equalityI)
      fix k
      assume "k < length (map thread_ref ?ts')"
      then show "map thread_ref ?ts' ! k = map thread_ref ts ! k"
        using ref by (cases "k = i") simp_all
    qed simp
    with refs have refs': "distinct (map thread_ref ?ts')" by simp
    have "remove_thread (thread_ref ?stopped) ?ts' = take i ?ts' @ drop (Suc i) ?ts'"
      using remove_thread_nth [OF refs', of i] i by simp
    then have removed: "remove_thread (thread_ref ?stopped) ?ts' = take i ts @ drop (Suc i) ts"
      by simp
    have filtered: "filter (\<lambda>t. get_id t \<noteq> a) ts = take i ts @ drop (Suc i) ts"
      using filter_other_ids [OF ids i] a by simp
    have "stop_loop obeys a (i + 1) True (filter (\<lambda>t. get_id t \<noteq> a) ts)
            = (True, filter (\<lambda>t. get_id t \<noteq> a) ts)"
    proof (rule stop_loop_done, intro allI impI)
      fix j
      assume "i + 1 \<le> j \<and> j < length (filter (\<lambda>t. get_id t \<noteq> a) ts)"
      then have "filter (\<lambda>t. get_id t \<noteq> a) ts ! j \<in> set (filter (\<lambda>t. get_id t \<noteq> a) ts)"
        using nth_mem by blast
      then show "get_id (filter (\<lambda>t. get_id t \<noteq> a) ts ! j) \<noteq> a" by simp
    qed
    with False i a dead removed filtered show ?thesis
      by (subst stop_loop.simps) (simp add: Let_def)
  qed
qed

lemma stop_loop_skip_to:
  "\<forall>k. i \<le> k \<and> k < j \<longrightarrow> get_id (ts ! k) \<noteq> a \<Longrightarrow> i \<le> j \<Longrightarrow> j \<le> length ts \<Longrightarrow>
   stop_loop obeys a i s ts = stop_loop obeys a j s ts"
proof (induction "j - i" arbitrary: i)
  case 0
  then show ?case by simp
next
  case (Suc n)
  then have i: "i < length ts" "i < j" and n: "n = j - (i + 1)" by simp_all
  from Suc.prems i have "get_id (ts ! i) \<noteq> a" by simp
  then have "stop_loop obeys a i s ts = stop_loop obeys a (i + 1) s ts"
    using i by (simp add: stop_loop_skip)
  also have "\<dots> = stop_loop obeys a j s ts"
    using Suc.hyps(1) [OF n] Suc.prems i by simp
  finally show ?case .
qed

lemma unique_id:
  "distinct (map get_id ts) \<Longrightarrow> t \<in> set ts \<Longrightarrow> u \<in> set ts \<Longrightarrow> get_id t = get_id u \<Longrightarrow> t = u"
  by (meson distinct_map inj_onD)

lemma stop_loop_result:
  assumes ids: "distinct (map get_id ts)" and refs: "distinct (map thread_ref ts)"
  shows "stop_loop obeys a 0 False ts =
     (if \<exists>t\<in>set ts. get_id t = a \<and> alive t \<and> \<not> obeys (thread_ref t) then (False, ts)
      else (\<exists>t\<in>set ts. get_id t = a, filter (\<lambda>t. get_id t \<noteq> a) ts))"
proof (cases "\<exists>t\<in>set ts. get_id t = a")
  case False
  then have "stop_loop obeys a 0 False ts = (False, ts)"
    by (intro stop_loop_done) simp
  moreover from False have "filter (\<lambda>t. get_id t \<noteq> a) ts = ts"
    by (simp add: filter_id_conv)
  ultimately show ?thesis using False by auto
next
  case True
  then obtain j where j: "j < length ts" "get_id (ts ! j) = a"
    by (auto simp add: in_set_conv_nth)
  have before: "\<forall>k. 0 \<le> k \<and> k < j \<longrightarrow> get_id (ts ! k) \<noteq> a"
  proof (intro allI impI)
    fix k assume "0 \<le> k \<and> k < j"
    then have "k < length ts" "k \<noteq> j" using j by simp_all
    then show "get_id (ts ! k) \<noteq> a"
      using ids j by (metis distinct_conv_nth length_map nth_map)
  qed
  have only: "t = ts ! j" if "t \<in> set ts" "get_id t = a" for t
    using unique_id [OF ids that(1) nth_mem [OF j(1)]] that(2) j(2) by simp
  have stubborn: "(\<exists>t\<in>set ts. get_id t = a \<and> alive t \<and> \<not> obeys (thread_ref t))
      \<longleftrightarrow> alive (ts ! j) \<and> \<not> obeys (thread_ref (ts ! j))"
    using only j nth_mem [OF j(1)] by blast
  have "stop_loop obeys a 0 False ts = stop_loop obeys a j False ts"
    using stop_loop_skip_to [OF before] j by simp
  then show ?thesis
    unfolding stop_loop_match [OF ids refs j] stubborn using True by simp
qed

lemma stop_alarm_thread_result:
  assumes "registry_ok mgr"
  shows "stop_alarm_thread obeys a mgr =
     (if \<exists>t\<in>set (alarm_threads mgr). get_id t = a \<and> alive t \<and> \<not> obeys (thread_ref t)
      then (False, mgr)
      else (\<exists>t\<in>set (alarm_threads mgr). get_id t = a,
            mgr\<lparr>alarm_threads := filter (\<lambda>t. get_id t \<noteq> a) (alarm_threads mgr)\<rparr>))"
proof -
  from assms have d: "distinct (map get_id (alarm_threads mgr))"
      "distinct (map thread_ref (alarm_threads mgr))"
    by (simp_all add: registry_ok_def)
  show ?thesis
    unfolding stop_alarm_thread_def stop_loop_result [OF d] by auto
qed

lemma running_in_iff:
  "distinct (map get_id ts) \<Longrightarrow> running_in a ts \<longleftrightarrow> (\<exists>t\<in>set ts. get_id t = a \<and> alive t)"
proof (induction ts)
  case Nil
  then show ?case by simp
next
  case (Cons t ts)
  then have "get_id t \<notin> get_id ` set ts" by simp
  then have "\<forall>u\<in>set ts. get_id u \<noteq> get_id t" by (metis imageI)
  with Cons show ?case by auto
qed

lemma first_index_None: "first_index P xs = None \<longleftrightarrow> (\<forall>x\<in>set xs. \<not> P x)"
  by (induction xs) auto

lemma first_index_Some:
  "first_index P xs = Some i \<Longrightarrow> i < length xs \<and> P (xs ! i)"
proof (induction xs arbitrary: i)
  case Nil
  then show ?case by simp
next
  case (Cons x xs)
  then show ?case by (cases "P x") auto
qed

lemma is_active_iff: "is_active a \<longleftrightarrow> enabled a \<and> any_day_enabled a"
  by (simp add: is_active_def)

text \<open>
  C2 as stated fails: the alarm 1 has a live thread and its hour is edited; after the
  reconciliation the list holds the same thread object 0, still alive, now with the edited
  alarm, and no thread has been created.
\<close>

theorem reconcile_edit_in_place:
  "snd (set_alarm_thread (\<lambda>_. True) (stored_alarm\<lparr>hour := 8\<rparr>)
         \<lparr>alarm_threads = [launch 0 stored_alarm], next_ref = 1\<rparr>)
     = \<lparr>alarm_threads = [launch 0 (stored_alarm\<lparr>hour := 8\<rparr>)], next_ref = 1\<rparr>
   \<and> is_active (stored_alarm\<lparr>hour := 8\<rparr>) \<and> alive (launch 0 stored_alarm)"
  by (simp add: set_alarm_thread_def launch_def get_id_def stored_alarm_def thread_edit_alarm_def
      is_active_iff any_day_enabled_iff Let_def)

text \<open>
  C2, amended. When the manager reconciles a record that is active and has a registered
  thread, a live thread is kept as it is, the same object and still running, and only the
  alarm it holds is replaced in place; nothing is stopped and nothing is started. A thread
  that is found dead is replaced at its place in the list by a new started thread.
\<close>

theorem reconcile_active_record:
  assumes "is_active alarm"
    and "first_index (\<lambda>t. alarm_id alarm = get_id t) (alarm_threads mgr) = Some i"
  shows "(alive (alarm_threads mgr ! i) \<longrightarrow>
            snd (set_alarm_thread obeys alarm mgr)
              = mgr\<lparr>alarm_threads :=
                      (alarm_threads mgr)[i := (alarm_threads mgr ! i)\<lparr>held_alarm := alarm\<rparr>]\<rparr>)
       \<and> (\<not> alive (alarm_threads mgr ! i) \<longrightarrow>
            snd (set_alarm_thread obeys alarm mgr)
              = mgr\<lparr>alarm_threads := (alarm_threads mgr)[i := launch (next_ref mgr) alarm],
                     next_ref := next_ref mgr + 1\<rparr>)"
  using assms by (simp add: set_alarm_thread_def thread_edit_alarm_def Let_def)

theorem reconcile_active_record_witness:
  "snd (set_alarm_thread (\<lambda>_. True) (stored_alarm\<lparr>hour := 8\<rparr>)
         \<lparr>alarm_threads = [launch 0 stored_alarm], next_ref = 1\<rparr>)
     = \<lparr>alarm_threads = [(launch 0 stored_alarm)\<lparr>held_alarm := stored_alarm\<lparr>hour := 8\<rparr>\<rparr>],
        next_ref = 1\<rparr>
   \<and> snd (set_alarm_thread (\<lambda>_. True) (stored_alarm\<lparr>hour := 8\<rparr>)
         \<lparr>alarm_threads = [(launch 0 stored_alarm)\<lparr>alive := False\<rparr>], next_ref = 1\<rparr>)
     = \<lparr>alarm_threads = [launch 1 (stored_alarm\<lparr>hour := 8\<rparr>)], next_ref = 2\<rparr>"
  using reconcile_active_record [of "stored_alarm\<lparr>hour := 8\<rparr>"
      "\<lparr>alarm_threads = [launch 0 stored_alarm], next_ref = 1\<rparr>" 0 "\<lambda>_. True"]
    reconcile_active_record [of "stored_alarm\<lparr>hour := 8\<rparr>"
      "\<lparr>alarm_threads = [(launch 0 stored_alarm)\<lparr>alive := False\<rparr>], next_ref = 1\<rparr>" 0 "\<lambda>_. True"]
  by (simp add: launch_def get_id_def stored_alarm_def is_active_iff any_day_enabled_iff)

text \<open>
  C6 as stated fails: a live thread that has not ended when the manager stops waiting stays
  registered, and \<^verbatim>\<open>is_alarm_running\<close> answers \<^verbatim>\<open>True\<close> for the inactive record.
\<close>

theorem reconcile_inactive_stubborn:
  "is_alarm_running (Some 1)
     (snd (set_alarm_thread (\<lambda>_. False) (stored_alarm\<lparr>enabled := False\<rparr>)
            \<lparr>alarm_threads = [launch 0 stored_alarm], next_ref = 1\<rparr>))
   \<and> \<not> is_active (stored_alarm\<lparr>enabled := False\<rparr>)
   \<and> alarm_id (stored_alarm\<lparr>enabled := False\<rparr>) = Some 1"
  by (simp add: set_alarm_thread_def stop_alarm_thread_def stop_loop.simps is_alarm_running_def
      launch_def get_id_def stored_alarm_def stop_and_wait_def is_active_iff Let_def)

text \<open>
  C6, amended. In a well-formed registry, after \<^verbatim>\<open>__set_alarm_thread\<close> has returned for a
  record that is not active, \<^verbatim>\<open>is_alarm_running\<close> of its identity is \<^verbatim>\<open>False\<close>, provided the
  thread registered for it, if alive, ends within the wait when it is asked to stop.
\<close>

theorem reconcile_inactive_not_running:
  assumes "registry_ok mgr" and "\<not> is_active alarm"
    and "\<forall>t\<in>set (alarm_threads mgr).
           get_id t = alarm_id alarm \<and> alive t \<longrightarrow> obeys (thread_ref t)"
  shows "\<not> is_alarm_running (alarm_id alarm) (snd (set_alarm_thread obeys alarm mgr))"
proof (cases "first_index (\<lambda>t. alarm_id alarm = get_id t) (alarm_threads mgr)")
  case None
  then have "\<forall>t\<in>set (alarm_threads mgr). get_id t \<noteq> alarm_id alarm"
    by (auto simp add: first_index_None)
  moreover from None assms(2) have "snd (set_alarm_thread obeys alarm mgr) = mgr"
    by (simp add: set_alarm_thread_def)
  ultimately show ?thesis
    using assms(1) by (simp add: is_alarm_running_def registry_ok_def running_in_iff)
next
  case (Some i)
  with assms(2) have "snd (set_alarm_thread obeys alarm mgr)
      = snd (stop_alarm_thread obeys (alarm_id alarm) mgr)"
    by (simp add: set_alarm_thread_def)
  also have "\<dots> = mgr\<lparr>alarm_threads :=
      filter (\<lambda>t. get_id t \<noteq> alarm_id alarm) (alarm_threads mgr)\<rparr>"
    using assms(3) by (auto simp add: stop_alarm_thread_result [OF assms(1)])
  finally have after: "alarm_threads (snd (set_alarm_thread obeys alarm mgr))
      = filter (\<lambda>t. get_id t \<noteq> alarm_id alarm) (alarm_threads mgr)"
    by simp
  from assms(1) have "distinct (map get_id (filter (\<lambda>t. get_id t \<noteq> alarm_id alarm) (alarm_threads mgr)))"
    by (simp add: registry_ok_def distinct_map_filter)
  then show ?thesis
    unfolding is_alarm_running_def after by (simp add: running_in_iff)
qed

theorem reconcile_inactive_not_running_witness:
  "\<not> is_alarm_running (Some 1)
     (snd (set_alarm_thread (\<lambda>_. True) (stored_alarm\<lparr>enabled := False\<rparr>)
            \<lparr>alarm_threads = [launch 0 stored_alarm], next_ref = 1\<rparr>))"
  using reconcile_inactive_not_running [of "\<lparr>alarm_threads = [launch 0 stored_alarm], next_ref = 1\<rparr>"
      "stored_alarm\<lparr>enabled := False\<rparr>" "\<lambda>_. True"]
  by (simp add: registry_ok_def launch_def get_id_def stored_alarm_def is_active_iff)

lemmas mgr_eval = check_threads_state_def stop_alarm_thread_def stop_loop.simps orphan_loop.simps
  is_alarm_running_def get_id_def launch_def stop_and_wait_def Let_def

text \<open>
  C3 at two orphans: no alarm is stored, two live threads are registered and both end as soon
  as they are asked to. One call of \<^verbatim>\<open>check_threads_state\<close> stops and removes the first;
  the loop, which runs over the list it has just shortened, never visits the second, which
  stays registered and alive.
\<close>

theorem check_threads_state_leaves_orphan:
  "check_threads_state (\<lambda>_. True) [] \<lparr>alarm_threads = [orphan_a, orphan_b], next_ref = 2\<rparr>
     = (False, \<lparr>alarm_threads = [orphan_b], next_ref = 2\<rparr>)
   \<and> alive orphan_b"
  by (simp add: mgr_eval orphan_a_def orphan_b_def blank_instance_def)

subsection \<open>Calling check_threads_state twice\<close>

lemma same_id_same_alarm:
  "distinct (map alarm_id A) \<Longrightarrow> a \<in> set A \<Longrightarrow> b \<in> set A \<Longrightarrow> alarm_id a = alarm_id b \<Longrightarrow> a = b"
  by (meson distinct_map inj_onD)

lemma is_alarm_running_iff:
  "registry_ok mgr \<Longrightarrow>
   is_alarm_running x mgr \<longleftrightarrow> (\<exists>t\<in>set (alarm_threads mgr). get_id t = x \<and> alive t)"
  by (simp add: is_alarm_running_def registry_ok_def running_in_iff)

lemma registry_ok_filter:
  "registry_ok mgr \<Longrightarrow> registry_ok (mgr\<lparr>alarm_threads := filter P (alarm_threads mgr)\<rparr>)"
  by (simp add: registry_ok_def distinct_map_filter list_all_iff)

lemma orphaned_iff: "orphaned A t \<longleftrightarrow> get_id t \<notin> alarm_id ` set A"
  by (simp add: orphaned_def list_ex_iff image_iff) metis

lemma orphaned_alt: "orphaned A t \<longleftrightarrow> (\<forall>a\<in>set A. alarm_id a \<noteq> get_id t)"
  by (simp add: orphaned_def list_ex_iff)

lemma idle_record_alt:
  "idle_record A t \<longleftrightarrow> (\<exists>a\<in>set A. alarm_id a = get_id t \<and> \<not> is_active a)"
  by (simp add: idle_record_def list_ex_iff)

lemma no_adjacent_Cons: "\<not> P x \<Longrightarrow> no_adjacent P (x # xs) = no_adjacent P xs"
  by (cases xs) simp_all

lemma no_adjacent_snoc: "\<not> P x \<Longrightarrow> no_adjacent P (xs @ [x]) = no_adjacent P xs"
  by (induction xs rule: induct_list012) auto

lemma no_adjacent_map: "no_adjacent (\<lambda>x. P (f x)) xs = no_adjacent P (map f xs)"
  by (induction xs rule: induct_list012) auto

lemma orphans_apart_ids:
  assumes "map get_id ts' = map get_id ts"
  shows "orphans_apart A ts' = orphans_apart A ts"
proof -
  have "orphans_apart A us =
      no_adjacent (\<lambda>x. \<not> list_ex (\<lambda>a. alarm_id a = x) A)
        (filter (\<lambda>x. \<not> list_ex (\<lambda>a. alarm_id a = x \<and> \<not> is_active a) A) (map get_id us))" for us
    unfolding orphans_apart_def orphaned_def [abs_def] idle_record_def [abs_def]
    by (simp add: filter_map o_def no_adjacent_map [where f = get_id, symmetric])
  with assms show ?thesis by simp
qed

lemma orphans_apart_snoc:
  "\<not> orphaned A t \<Longrightarrow> orphans_apart A (ts @ [t]) = orphans_apart A ts"
  by (simp add: orphans_apart_def no_adjacent_snoc)

lemma orphans_apart_remove_idle:
  assumes "a \<in> set A" "\<not> is_active a"
  shows "orphans_apart A (filter (\<lambda>t. get_id t \<noteq> alarm_id a) ts) = orphans_apart A ts"
proof -
  have "filter (\<lambda>t. \<not> idle_record A t) (filter (\<lambda>t. get_id t \<noteq> alarm_id a) ts)
      = filter (\<lambda>t. \<not> idle_record A t) ts"
    unfolding filter_filter using assms by (intro filter_cong refl) (auto simp add: idle_record_alt)
  then show ?thesis by (simp add: orphans_apart_def)
qed

lemma sweep_keep: "\<not> P x \<Longrightarrow> sweep P (x # xs) = x # sweep P xs"
  by (subst sweep.simps) simp

lemma sweep_drop: "P x \<Longrightarrow> sweep P (x # xs) = take 1 xs @ sweep P (drop 1 xs)"
  by (subst sweep.simps) simp

lemma sweep_Nil [simp]: "sweep P [] = []"
  by (subst sweep.simps) simp

lemma sweep_subset: "set (sweep P xs) \<subseteq> set xs"
proof (induction P xs rule: sweep.induct)
  case (1 P)
  then show ?case by simp
next
  case (2 P x xs)
  show ?case
  proof (cases "P x")
    case True
    have "set (take 1 xs) \<subseteq> set xs" by (rule set_take_subset)
    moreover have "set (sweep P (drop 1 xs)) \<subseteq> set xs"
      using 2(1) [OF True] set_drop_subset [of 1 xs] by blast
    ultimately show ?thesis using True by (auto simp add: sweep_drop)
  next
    case False
    with 2(2) show ?thesis by (auto simp add: sweep_keep)
  qed
qed

lemma sweep_clean_iff: "(\<forall>x\<in>set (sweep P xs). \<not> P x) \<longleftrightarrow> no_adjacent P xs"
proof (induction P xs rule: sweep.induct)
  case (1 P)
  then show ?case by simp
next
  case (2 P x xs)
  show ?case
  proof (cases "P x")
    case False
    with 2(2) show ?thesis by (simp add: sweep_keep no_adjacent_Cons)
  next
    case True
    show ?thesis
    proof (cases xs)
      case Nil
      with True show ?thesis by (simp add: sweep_drop)
    next
      case (Cons y ys)
      from 2(1) [OF True] Cons
      have IH: "(\<forall>z\<in>set (sweep P ys). \<not> P z) \<longleftrightarrow> no_adjacent P ys" by simp
      show ?thesis
        using True Cons IH by (auto simp add: sweep_drop no_adjacent_Cons)
    qed
  qed
qed

lemma sweep_filter: "no_adjacent P xs \<Longrightarrow> sweep P xs = filter (\<lambda>x. \<not> P x) xs"
proof (induction P xs rule: sweep.induct)
  case (1 P)
  then show ?case by simp
next
  case (2 P x xs)
  show ?case
  proof (cases "P x")
    case False
    with 2(2,3) show ?thesis by (simp add: sweep_keep no_adjacent_Cons)
  next
    case True
    show ?thesis
    proof (cases xs)
      case Nil
      with True show ?thesis by (simp add: sweep_drop)
    next
      case (Cons y ys)
      with True 2(3) have y: "\<not> P y" and ys: "no_adjacent P ys"
        by (auto simp add: no_adjacent_Cons)
      from 2(1) [OF True] Cons ys have "sweep P ys = filter (\<lambda>x. \<not> P x) ys" by simp
      with True Cons y show ?thesis by (simp add: sweep_drop)
    qed
  qed
qed


text \<open>What \<^verbatim>\<open>__set_alarm_thread\<close> does for an active alarm that is not running.\<close>

lemma launch_step:
  assumes ok: "registry_ok mgr" and a: "is_active a"
    and run: "\<not> is_alarm_running (alarm_id a) mgr"
  shows "\<exists>ts'. snd (set_alarm_thread obeys a mgr)
             = mgr\<lparr>alarm_threads := ts', next_ref := next_ref mgr + 1\<rparr>
          \<and> registry_ok (mgr\<lparr>alarm_threads := ts', next_ref := next_ref mgr + 1\<rparr>)
          \<and> set ts' = {t \<in> set (alarm_threads mgr). get_id t \<noteq> alarm_id a}
                        \<union> {launch (next_ref mgr) a}
          \<and> (ts' = alarm_threads mgr @ [launch (next_ref mgr) a]
               \<or> map get_id ts' = map get_id (alarm_threads mgr))"
proof -
  let ?ts = "alarm_threads mgr"
  let ?new = "launch (next_ref mgr) a"
  from ok have dids: "distinct (map get_id ?ts)" and drefs: "distinct (map thread_ref ?ts)"
    and below: "\<forall>t\<in>set ?ts. thread_ref t < next_ref mgr"
    by (simp_all add: registry_ok_def list_all_iff)
  have new: "get_id ?new = alarm_id a" "thread_ref ?new = next_ref mgr" "alive ?new"
    by (simp_all add: launch_def get_id_def)
  have fresh: "next_ref mgr \<notin> set (map thread_ref ?ts)"
    using below by auto
  show ?thesis
  proof (cases "first_index (\<lambda>t. alarm_id a = get_id t) ?ts")
    case None
    then have none: "\<forall>t\<in>set ?ts. get_id t \<noteq> alarm_id a"
      by (auto simp add: first_index_None)
    let ?ts' = "?ts @ [?new]"
    have res: "snd (set_alarm_thread obeys a mgr)
        = mgr\<lparr>alarm_threads := ?ts', next_ref := next_ref mgr + 1\<rparr>"
      using None a by (simp add: set_alarm_thread_def)
    have regok: "registry_ok (mgr\<lparr>alarm_threads := ?ts', next_ref := next_ref mgr + 1\<rparr>)"
      using dids drefs below none fresh new
      by (auto simp add: registry_ok_def list_all_iff less_Suc_eq)
    have setc: "set ?ts' = {t \<in> set ?ts. get_id t \<noteq> alarm_id a} \<union> {?new}"
      using none by auto
    show ?thesis
      by (intro exI [where x = ?ts'] conjI disjI1) (rule res regok setc refl)+
  next
    case (Some i)
    then have i: "i < length ?ts" "get_id (?ts ! i) = alarm_id a"
      using first_index_Some [OF Some] by simp_all
    have mem: "?ts ! i \<in> set ?ts" using i by simp
    have dead: "\<not> alive (?ts ! i)"
      using run i mem by (auto simp add: is_alarm_running_iff [OF ok])
    let ?ts' = "?ts[i := ?new]"
    have res: "snd (set_alarm_thread obeys a mgr)
        = mgr\<lparr>alarm_threads := ?ts', next_ref := next_ref mgr + 1\<rparr>"
      using Some a dead by (simp add: set_alarm_thread_def thread_edit_alarm_def Let_def)
    have dts: "distinct ?ts" using dids by (simp add: distinct_map)
    have set': "set ?ts' = insert ?new (set ?ts - {?ts ! i})"
      using dts i by (simp add: set_update_distinct)
    have only: "t = ?ts ! i" if "t \<in> set ?ts" "get_id t = alarm_id a" for t
      using unique_id [OF dids that(1) mem] that(2) i(2) by simp
    have setc: "set ?ts' = {t \<in> set ?ts. get_id t \<noteq> alarm_id a} \<union> {?new}"
      unfolding set' using only i mem by auto
    have ids': "map get_id ?ts' = map get_id ?ts"
      using i new by (simp add: map_update list_update_same_conv)
    have refs': "distinct (map thread_ref ?ts')"
      unfolding map_update new using drefs fresh by (intro distinct_list_update) auto
    have regok: "registry_ok (mgr\<lparr>alarm_threads := ?ts', next_ref := next_ref mgr + 1\<rparr>)"
      using dids ids' refs' below new set'
      by (auto simp add: registry_ok_def list_all_iff less_Suc_eq)
    show ?thesis
      by (intro exI [where x = ?ts'] conjI disjI2) (rule res regok setc ids')+
  qed
qed

lemma step_stop:
  assumes inv: "phase_inv obeys A mgr" and ids: "distinct (map alarm_id A)"
    and a: "a \<in> set A" "\<not> is_active a" and run: "is_alarm_running (alarm_id a) mgr"
  shows "snd (stop_alarm_thread obeys (alarm_id a) mgr)
           = mgr\<lparr>alarm_threads := filter (\<lambda>t. get_id t \<noteq> alarm_id a) (alarm_threads mgr)\<rparr>"
proof -
  from inv have ok: "registry_ok mgr" by (simp add: phase_inv_def)
  have "obeys (thread_ref t)" if t: "t \<in> set (alarm_threads mgr)" "get_id t = alarm_id a" "alive t" for t
  proof -
    have "\<forall>b\<in>set A. alarm_id b = get_id t \<longrightarrow> \<not> is_active b"
      using same_id_same_alarm [OF ids _ a(1)] a(2) t(2) by metis
    with inv t show ?thesis by (simp add: phase_inv_def)
  qed
  then have "\<not> (\<exists>t\<in>set (alarm_threads mgr). get_id t = alarm_id a \<and> alive t \<and> \<not> obeys (thread_ref t))"
    by blast
  then show ?thesis
    unfolding stop_alarm_thread_result [OF ok] by (simp only: if_False snd_conv)
qed

lemma phase_inv_filter:
  "phase_inv obeys A mgr \<Longrightarrow> phase_inv obeys A (mgr\<lparr>alarm_threads := filter P (alarm_threads mgr)\<rparr>)"
  by (auto simp add: phase_inv_def registry_ok_filter)

lemma step_launch:
  assumes inv: "phase_inv obeys A mgr"
    and a: "a \<in> set A" "is_active a" and run: "\<not> is_alarm_running (alarm_id a) mgr"
  shows "\<exists>ts'. snd (set_alarm_thread obeys a mgr)
             = mgr\<lparr>alarm_threads := ts', next_ref := next_ref mgr + 1\<rparr>
          \<and> phase_inv obeys A (mgr\<lparr>alarm_threads := ts', next_ref := next_ref mgr + 1\<rparr>)
          \<and> set ts' = {t \<in> set (alarm_threads mgr). get_id t \<noteq> alarm_id a}
                        \<union> {launch (next_ref mgr) a}
          \<and> orphans_apart A ts' = orphans_apart A (alarm_threads mgr)"
proof -
  let ?new = "launch (next_ref mgr) a"
  from inv have ok: "registry_ok mgr" by (simp add: phase_inv_def)
  have new: "get_id ?new = alarm_id a" "alive ?new"
    by (simp_all add: launch_def get_id_def)
  have new_ok: "\<not> (\<forall>b\<in>set A. alarm_id b = get_id ?new \<longrightarrow> \<not> is_active b)"
    using a new(1) by auto
  have not_orphan: "\<not> orphaned A ?new"
    using a(1) new(1) by (auto simp add: orphaned_alt)
  from launch_step [OF ok a(2) run, of obeys] obtain ts' where ts':
    "snd (set_alarm_thread obeys a mgr) = mgr\<lparr>alarm_threads := ts', next_ref := next_ref mgr + 1\<rparr>"
    "registry_ok (mgr\<lparr>alarm_threads := ts', next_ref := next_ref mgr + 1\<rparr>)"
    "set ts' = {t \<in> set (alarm_threads mgr). get_id t \<noteq> alarm_id a} \<union> {?new}"
    "ts' = alarm_threads mgr @ [?new] \<or> map get_id ts' = map get_id (alarm_threads mgr)"
    by (elim exE conjE) (rule that)
  have mem: "t \<in> set (alarm_threads mgr) \<or> t = ?new" if "t \<in> set ts'" for t
    using that ts'(3) by auto
  have coop: "\<forall>t\<in>set ts'.
      alive t \<and> (\<forall>b\<in>set A. alarm_id b = get_id t \<longrightarrow> \<not> is_active b) \<longrightarrow> obeys (thread_ref t)"
  proof (intro ballI impI)
    fix t
    assume t: "t \<in> set ts'"
      and h: "alive t \<and> (\<forall>b\<in>set A. alarm_id b = get_id t \<longrightarrow> \<not> is_active b)"
    from mem [OF t] show "obeys (thread_ref t)"
    proof
      assume "t \<in> set (alarm_threads mgr)"
      with inv h show ?thesis by (simp add: phase_inv_def)
    next
      assume "t = ?new"
      with h new_ok show ?thesis by simp
    qed
  qed
  have dead: "\<forall>t\<in>set ts'. \<not> alive t \<longrightarrow> (\<forall>b\<in>set A. alarm_id b = get_id t \<longrightarrow> is_active b)"
  proof (intro ballI impI)
    fix t b
    assume t: "t \<in> set ts'" and h: "\<not> alive t" and b: "b \<in> set A" "alarm_id b = get_id t"
    from mem [OF t] show "is_active b"
    proof
      assume "t \<in> set (alarm_threads mgr)"
      with inv h b show ?thesis by (simp add: phase_inv_def)
    next
      assume "t = ?new"
      with h new(2) show ?thesis by simp
    qed
  qed
  have inv': "phase_inv obeys A (mgr\<lparr>alarm_threads := ts', next_ref := next_ref mgr + 1\<rparr>)"
    using ts'(2) coop dead by (simp add: phase_inv_def)
  have apart: "orphans_apart A ts' = orphans_apart A (alarm_threads mgr)"
    using ts'(4)
  proof
    assume "ts' = alarm_threads mgr @ [?new]"
    then show ?thesis by (simp add: orphans_apart_snoc [OF not_orphan])
  next
    assume "map get_id ts' = map get_id (alarm_threads mgr)"
    then show ?thesis by (rule orphans_apart_ids)
  qed
  show ?thesis
    by (intro exI [where x = ts'] conjI) (rule ts'(1) inv' ts'(3) apart)+
qed

lemma check_alarms_Cons:
  "check_alarms obeys (a # r) (pc, c, mgr) =
     check_alarms obeys r
       (pc \<and> (is_active a \<longleftrightarrow> is_alarm_running (alarm_id a) mgr),
        c + (if is_active a then 1 else 0), check_one obeys a mgr)"
  by (simp add: check_one_def)

lemma check_one_props:
  assumes inv: "phase_inv obeys A mgr" and ids: "distinct (map alarm_id A)" and a: "a \<in> set A"
  shows "phase_inv obeys A (check_one obeys a mgr)"
    and "\<And>t. get_id t \<noteq> alarm_id a \<Longrightarrow>
          t \<in> set (alarm_threads (check_one obeys a mgr)) \<longleftrightarrow> t \<in> set (alarm_threads mgr)"
    and "is_active a \<Longrightarrow>
          \<exists>t\<in>set (alarm_threads (check_one obeys a mgr)). get_id t = alarm_id a \<and> alive t"
    and "\<not> is_active a \<Longrightarrow>
          \<forall>t\<in>set (alarm_threads (check_one obeys a mgr)). get_id t \<noteq> alarm_id a"
    and "orphans_apart A (alarm_threads (check_one obeys a mgr))
           = orphans_apart A (alarm_threads mgr)"
proof -
  from inv have ok: "registry_ok mgr" by (simp add: phase_inv_def)
  note running = is_alarm_running_iff [OF ok]
  consider (keep) "is_active a" "is_alarm_running (alarm_id a) mgr"
    | (start) "is_active a" "\<not> is_alarm_running (alarm_id a) mgr"
    | (stop) "\<not> is_active a" "is_alarm_running (alarm_id a) mgr"
    | (idle) "\<not> is_active a" "\<not> is_alarm_running (alarm_id a) mgr"
    by blast
  then have "phase_inv obeys A (check_one obeys a mgr)
    \<and> (\<forall>t. get_id t \<noteq> alarm_id a \<longrightarrow>
          (t \<in> set (alarm_threads (check_one obeys a mgr)) \<longleftrightarrow> t \<in> set (alarm_threads mgr)))
    \<and> (is_active a \<longrightarrow>
          (\<exists>t\<in>set (alarm_threads (check_one obeys a mgr)). get_id t = alarm_id a \<and> alive t))
    \<and> (\<not> is_active a \<longrightarrow>
          (\<forall>t\<in>set (alarm_threads (check_one obeys a mgr)). get_id t \<noteq> alarm_id a))
    \<and> orphans_apart A (alarm_threads (check_one obeys a mgr))
           = orphans_apart A (alarm_threads mgr)"
  proof cases
    case keep
    then have "check_one obeys a mgr = mgr" by (simp add: check_one_def)
    with keep inv show ?thesis by (simp add: running)
  next
    case start
    from step_launch [OF inv a start] obtain ts' where ts':
      "snd (set_alarm_thread obeys a mgr) = mgr\<lparr>alarm_threads := ts', next_ref := next_ref mgr + 1\<rparr>"
      "phase_inv obeys A (mgr\<lparr>alarm_threads := ts', next_ref := next_ref mgr + 1\<rparr>)"
      "set ts' = {t \<in> set (alarm_threads mgr). get_id t \<noteq> alarm_id a} \<union> {launch (next_ref mgr) a}"
      "orphans_apart A ts' = orphans_apart A (alarm_threads mgr)"
      by (elim exE conjE) (rule that)
    have one: "check_one obeys a mgr = mgr\<lparr>alarm_threads := ts', next_ref := next_ref mgr + 1\<rparr>"
      using start ts'(1) by (simp add: check_one_def)
    have new: "get_id (launch (next_ref mgr) a) = alarm_id a" "alive (launch (next_ref mgr) a)"
      by (simp_all add: launch_def get_id_def)
    have thr: "alarm_threads (mgr\<lparr>alarm_threads := ts', next_ref := next_ref mgr + 1\<rparr>) = ts'"
      by simp
    have frame: "\<forall>t. get_id t \<noteq> alarm_id a \<longrightarrow> (t \<in> set ts' \<longleftrightarrow> t \<in> set (alarm_threads mgr))"
      unfolding ts'(3) using new(1) by auto
    have up: "\<exists>t\<in>set ts'. get_id t = alarm_id a \<and> alive t"
      unfolding ts'(3) using new by auto
    show ?thesis
      unfolding one thr using start(1) ts'(2) frame up ts'(4) by simp
  next
    case stop
    have one: "check_one obeys a mgr
        = mgr\<lparr>alarm_threads := filter (\<lambda>t. get_id t \<noteq> alarm_id a) (alarm_threads mgr)\<rparr>"
      using stop step_stop [OF inv ids a stop] by (simp add: check_one_def)
    have thr: "alarm_threads (mgr\<lparr>alarm_threads :=
        filter (\<lambda>t. get_id t \<noteq> alarm_id a) (alarm_threads mgr)\<rparr>)
          = filter (\<lambda>t. get_id t \<noteq> alarm_id a) (alarm_threads mgr)"
      by simp
    show ?thesis
      unfolding one thr
      using stop(1) phase_inv_filter [OF inv] orphans_apart_remove_idle [OF a stop(1)]
      by simp
  next
    case idle
    then have one: "check_one obeys a mgr = mgr" by (simp add: check_one_def)
    have "get_id t \<noteq> alarm_id a" if t: "t \<in> set (alarm_threads mgr)" for t
    proof
      assume same: "get_id t = alarm_id a"
      with idle(2) t have "\<not> alive t" by (auto simp add: running)
      with inv t have "\<forall>b\<in>set A. alarm_id b = get_id t \<longrightarrow> is_active b"
        by (simp add: phase_inv_def)
      with a same idle(1) show False by auto
    qed
    with idle(1) inv show ?thesis unfolding one by simp
  qed
  then show "phase_inv obeys A (check_one obeys a mgr)"
    and "\<And>t. get_id t \<noteq> alarm_id a \<Longrightarrow>
          t \<in> set (alarm_threads (check_one obeys a mgr)) \<longleftrightarrow> t \<in> set (alarm_threads mgr)"
    and "is_active a \<Longrightarrow>
          \<exists>t\<in>set (alarm_threads (check_one obeys a mgr)). get_id t = alarm_id a \<and> alive t"
    and "\<not> is_active a \<Longrightarrow>
          \<forall>t\<in>set (alarm_threads (check_one obeys a mgr)). get_id t \<noteq> alarm_id a"
    and "orphans_apart A (alarm_threads (check_one obeys a mgr))
           = orphans_apart A (alarm_threads mgr)"
    by blast+
qed

lemma phase1:
  assumes "phase_inv obeys A mgr" and "distinct (map alarm_id A)"
    and "set rest \<subseteq> set A" and "distinct (map alarm_id rest)"
  shows "\<exists>pc' mgr'.
      check_alarms obeys rest (pc, c, mgr) = (pc', c + length (filter is_active rest), mgr')
      \<and> phase_inv obeys A mgr'
      \<and> (\<forall>t. get_id t \<notin> alarm_id ` set rest \<longrightarrow>
            (t \<in> set (alarm_threads mgr') \<longleftrightarrow> t \<in> set (alarm_threads mgr)))
      \<and> (\<forall>a\<in>set rest. is_active a \<longrightarrow>
            (\<exists>t\<in>set (alarm_threads mgr'). get_id t = alarm_id a \<and> alive t))
      \<and> (\<forall>a\<in>set rest. \<not> is_active a \<longrightarrow>
            (\<forall>t\<in>set (alarm_threads mgr'). get_id t \<noteq> alarm_id a))
      \<and> orphans_apart A (alarm_threads mgr') = orphans_apart A (alarm_threads mgr)"
  using assms
proof (induction rest arbitrary: pc c mgr)
  case Nil
  then show ?case by simp
next
  case (Cons a r)
  let ?m1 = "check_one obeys a mgr"
  let ?pc1 = "pc \<and> (is_active a \<longleftrightarrow> is_alarm_running (alarm_id a) mgr)"
  let ?c1 = "c + (if is_active a then 1 else 0)"
  from Cons.prems have a: "a \<in> set A" and r: "set r \<subseteq> set A" "distinct (map alarm_id r)"
    and other: "alarm_id a \<notin> alarm_id ` set r"
    by auto
  note one = check_one_props [OF Cons.prems(1,2) a, of ]
  from Cons.IH [OF one(1) Cons.prems(2) r, of ?pc1 ?c1]
  obtain pc' mgr' where rest:
    "check_alarms obeys r (?pc1, ?c1, ?m1) = (pc', ?c1 + length (filter is_active r), mgr')"
    "phase_inv obeys A mgr'"
    "\<forall>t. get_id t \<notin> alarm_id ` set r \<longrightarrow>
        (t \<in> set (alarm_threads mgr') \<longleftrightarrow> t \<in> set (alarm_threads ?m1))"
    "\<forall>b\<in>set r. is_active b \<longrightarrow> (\<exists>t\<in>set (alarm_threads mgr'). get_id t = alarm_id b \<and> alive t)"
    "\<forall>b\<in>set r. \<not> is_active b \<longrightarrow> (\<forall>t\<in>set (alarm_threads mgr'). get_id t \<noteq> alarm_id b)"
    "orphans_apart A (alarm_threads mgr') = orphans_apart A (alarm_threads ?m1)"
    by (elim exE conjE) (rule that)
  have run: "check_alarms obeys (a # r) (pc, c, mgr)
      = (pc', c + length (filter is_active (a # r)), mgr')"
    unfolding check_alarms_Cons rest(1) by simp
  have frame: "\<forall>t. get_id t \<notin> alarm_id ` set (a # r) \<longrightarrow>
        (t \<in> set (alarm_threads mgr') \<longleftrightarrow> t \<in> set (alarm_threads mgr))"
    using rest(3) one(2) by simp
  have here: "t \<in> set (alarm_threads mgr') \<longleftrightarrow> t \<in> set (alarm_threads ?m1)"
    if "get_id t = alarm_id a" for t
    using rest(3) other that by simp
  have act: "\<forall>b\<in>set (a # r). is_active b \<longrightarrow>
      (\<exists>t\<in>set (alarm_threads mgr'). get_id t = alarm_id b \<and> alive t)"
    using rest(4) one(3) here by auto
  have inact: "\<forall>b\<in>set (a # r). \<not> is_active b \<longrightarrow>
      (\<forall>t\<in>set (alarm_threads mgr'). get_id t \<noteq> alarm_id b)"
    using rest(5) one(4) here by auto
  have apart: "orphans_apart A (alarm_threads mgr') = orphans_apart A (alarm_threads mgr)"
    using rest(6) one(5) by simp
  show ?case
    by (intro exI conjI) (rule run rest(2) frame act inact apart)+
qed

lemma orphan_loop_done:
  "\<forall>j. i \<le> j \<and> j < length (alarm_threads mgr) \<longrightarrow> \<not> orphaned A (alarm_threads mgr ! j) \<Longrightarrow>
   orphan_loop obeys A i mgr = mgr"
proof (induction "length (alarm_threads mgr) - i" arbitrary: i)
  case 0
  then show ?case by (subst orphan_loop.simps) simp
next
  case (Suc n)
  then have i: "i < length (alarm_threads mgr)" and n: "n = length (alarm_threads mgr) - (i + 1)"
    by simp_all
  from Suc.prems i have "\<not> orphaned A (alarm_threads mgr ! i)" by simp
  moreover have "orphan_loop obeys A (i + 1) mgr = mgr"
    using Suc.hyps(1) [OF n] Suc.prems by simp
  ultimately show ?case using i
    by (subst orphan_loop.simps) (simp add: orphaned_def)
qed

text \<open>
  The orphan loop, from the index \<open>i\<close> on, in a registry where every orphan still ahead that
  is alive ends in time: each orphan it meets is removed, and the thread after it is passed
  over.
\<close>

lemma orphan_loop_sweep:
  assumes "registry_ok mgr"
    and "\<forall>t\<in>set (drop i (alarm_threads mgr)). orphaned A t \<and> alive t \<longrightarrow> obeys (thread_ref t)"
  shows "orphan_loop obeys A i mgr
           = mgr\<lparr>alarm_threads := take i (alarm_threads mgr)
                                    @ sweep (orphaned A) (drop i (alarm_threads mgr))\<rparr>"
  using assms
proof (induction "length (alarm_threads mgr) - i" arbitrary: i mgr rule: less_induct)
  case less
  let ?ts = "alarm_threads mgr"
  show ?case
  proof (cases "i < length ?ts")
    case False
    then show ?thesis by (subst orphan_loop.simps) simp
  next
    case inside: True
    let ?t = "?ts ! i"
    let ?D = "drop (Suc i) ?ts"
    have split: "drop i ?ts = ?t # ?D"
      using inside by (simp add: Cons_nth_drop_Suc)
    have mem: "?t \<in> set ?ts" using inside by simp
    show ?thesis
    proof (cases "orphaned A ?t")
      case False
      have ahead: "\<forall>t\<in>set (drop (i + 1) ?ts). orphaned A t \<and> alive t \<longrightarrow> obeys (thread_ref t)"
        using less.prems(2) unfolding split by simp
      have "orphan_loop obeys A i mgr = orphan_loop obeys A (i + 1) mgr"
        using inside False by (subst orphan_loop.simps) (simp add: orphaned_def)
      also have "\<dots> = mgr\<lparr>alarm_threads := take (i + 1) ?ts @ sweep (orphaned A) (drop (i + 1) ?ts)\<rparr>"
      proof (rule less.hyps [OF _ less.prems(1) ahead])
        show "length ?ts - (i + 1) < length ?ts - i" using inside by simp
      qed
      also have "take (i + 1) ?ts @ sweep (orphaned A) (drop (i + 1) ?ts)
          = take i ?ts @ sweep (orphaned A) (drop i ?ts)"
        unfolding split using inside False by (simp add: sweep_keep take_Suc_conv_app_nth)
      finally show ?thesis .
    next
      case True
      from less.prems(1) have dids: "distinct (map get_id ?ts)" by (simp add: registry_ok_def)
      have stops: "alive ?t \<longrightarrow> obeys (thread_ref ?t)"
        using less.prems(2) True unfolding split by simp
      have "\<not> (\<exists>u\<in>set ?ts. get_id u = get_id ?t \<and> alive u \<and> \<not> obeys (thread_ref u))"
        using unique_id [OF dids _ mem] stops by blast
      then have stop: "snd (stop_alarm_thread obeys (get_id ?t) mgr)
          = mgr\<lparr>alarm_threads := filter (\<lambda>u. get_id u \<noteq> get_id ?t) ?ts\<rparr>"
        unfolding stop_alarm_thread_result [OF less.prems(1)] by (simp only: if_False snd_conv)
      let ?ts' = "take i ?ts @ ?D"
      let ?m' = "mgr\<lparr>alarm_threads := ?ts'\<rparr>"
      have removed: "filter (\<lambda>u. get_id u \<noteq> get_id ?t) ?ts = ?ts'"
        by (rule filter_other_ids [OF dids inside])
      have ok': "registry_ok ?m'"
        using registry_ok_filter [OF less.prems(1), of "\<lambda>u. get_id u \<noteq> get_id ?t"]
        unfolding removed .
      have len: "length (take i ?ts) = i" using inside by simp
      have thr': "alarm_threads ?m' = ?ts'" by simp
      have dr: "drop (i + 1) ?ts' = drop 1 ?D"
        using len by (simp add: drop_append)
      have tk: "take (i + 1) ?ts' = take i ?ts @ take 1 ?D"
        using len by (simp add: take_append)
      have sub: "set (drop 1 ?D) \<subseteq> set (drop i ?ts)"
        unfolding split using set_drop_subset [of 1 ?D] by auto
      have ahead: "\<forall>t\<in>set (drop (i + 1) (alarm_threads ?m')). orphaned A t \<and> alive t
                      \<longrightarrow> obeys (thread_ref t)"
        unfolding thr' dr using sub less.prems(2) by blast
      have smaller: "length (alarm_threads ?m') - (i + 1) < length ?ts - i"
        unfolding thr' using inside by simp
      have "orphan_loop obeys A i mgr = orphan_loop obeys A (i + 1) ?m'"
        using inside True stop removed
        by (subst orphan_loop.simps) (simp add: orphaned_def Let_def)
      also have "\<dots> = ?m'\<lparr>alarm_threads := take (i + 1) (alarm_threads ?m')
                          @ sweep (orphaned A) (drop (i + 1) (alarm_threads ?m'))\<rparr>"
        by (rule less.hyps [OF smaller ok' ahead])
      also have "\<dots> = mgr\<lparr>alarm_threads := take i ?ts @ take 1 ?D @ sweep (orphaned A) (drop 1 ?D)\<rparr>"
        unfolding thr' dr tk by simp
      also have "take i ?ts @ take 1 ?D @ sweep (orphaned A) (drop 1 ?D)
          = take i ?ts @ sweep (orphaned A) (drop i ?ts)"
        unfolding split using True by (simp add: sweep_drop)
      finally show ?thesis .
    qed
  qed
qed

lemma check_alarms_stable:
  assumes "\<forall>a\<in>set rest. is_active a \<longleftrightarrow> is_alarm_running (alarm_id a) mgr"
  shows "check_alarms obeys rest (pc, c, mgr) = (pc, c + length (filter is_active rest), mgr)"
  using assms
proof (induction rest arbitrary: c)
  case Nil
  then show ?case by simp
next
  case (Cons a r)
  then have "check_one obeys a mgr = mgr" by (simp add: check_one_def)
  with Cons show ?case unfolding check_alarms_Cons by simp
qed

lemma active_count:
  assumes ids: "distinct (map alarm_id A)" and dts: "distinct (map get_id ts)"
    and covers: "get_id ` set ts = alarm_id ` {a \<in> set A. is_active a}"
  shows "length ts = length (filter is_active A)"
proof -
  have "length ts = card (set (map get_id ts))"
    using distinct_card [OF dts] by simp
  also have "\<dots> = card (set (map alarm_id (filter is_active A)))"
    using covers by simp
  also have "\<dots> = length (map alarm_id (filter is_active A))"
    using ids by (intro distinct_card) (simp add: distinct_map_filter)
  finally show ?thesis by simp
qed


text \<open>
  A call of \<^verbatim>\<open>check_threads_state\<close> that returns \<^verbatim>\<open>True\<close> has found every alarm as it
  should be and as many threads as active alarms, and has changed nothing.
\<close>

lemma check_alarms_True:
  assumes "check_alarms obeys rest (pc, c, m) = (True, c', m')"
  shows "pc \<and> (\<forall>a\<in>set rest. is_active a \<longleftrightarrow> is_alarm_running (alarm_id a) m)
           \<and> m' = m \<and> c' = c + length (filter is_active rest)"
  using assms
proof (induction rest arbitrary: pc c m)
  case Nil
  then show ?case by simp
next
  case (Cons a r)
  let ?pc1 = "pc \<and> (is_active a \<longleftrightarrow> is_alarm_running (alarm_id a) m)"
  let ?c1 = "c + (if is_active a then 1 else 0)"
  from Cons.prems
  have "check_alarms obeys r (?pc1, ?c1, check_one obeys a m) = (True, c', m')"
    by (simp only: check_alarms_Cons)
  from Cons.IH [OF this]
  have ih: "?pc1" "\<forall>b\<in>set r. is_active b \<longleftrightarrow> is_alarm_running (alarm_id b) (check_one obeys a m)"
    "m' = check_one obeys a m" "c' = ?c1 + length (filter is_active r)"
    by simp_all
  from ih(1) have same: "check_one obeys a m = m" by (auto simp add: check_one_def)
  from ih same show ?case by simp
qed

lemma check_threads_state_True:
  assumes "fst (check_threads_state obeys A m)"
  shows "\<forall>a\<in>set A. is_active a \<longleftrightarrow> is_alarm_running (alarm_id a) m"
    and "length (alarm_threads m) = length (filter is_active A)"
    and "snd (check_threads_state obeys A m) = m"
proof -
  obtain pc c m1 where r: "check_alarms obeys A (True, 0, m) = (pc, c, m1)"
    by (metis prod_cases3)
  from assms r have len: "length (alarm_threads m1) = c" and pc: pc
    by (auto simp add: check_threads_state_def split: if_splits)
  from r pc have "check_alarms obeys A (True, 0, m) = (True, c, m1)" by simp
  from check_alarms_True [OF this]
  have t: "\<forall>a\<in>set A. is_active a \<longleftrightarrow> is_alarm_running (alarm_id a) m" "m1 = m"
    "c = length (filter is_active A)"
    by simp_all
  show "\<forall>a\<in>set A. is_active a \<longleftrightarrow> is_alarm_running (alarm_id a) m" by (rule t(1))
  show "length (alarm_threads m) = length (filter is_active A)" using len t(2,3) by simp
  show "snd (check_threads_state obeys A m) = m"
    using r len t(2) by (simp add: check_threads_state_def)
qed

text \<open>
  A registered thread that is an orphan or belongs to an idle record is one thread more than
  the active alarms account for.
\<close>

lemma not_for_active:
  assumes ids: "distinct (map alarm_id A)" and t: "orphaned A t \<or> idle_record A t"
  shows "get_id t \<notin> alarm_id ` {a \<in> set A. is_active a}"
proof
  assume "get_id t \<in> alarm_id ` {a \<in> set A. is_active a}"
  then obtain a where a: "a \<in> set A" "is_active a" "alarm_id a = get_id t" by auto
  from t show False
  proof
    assume "orphaned A t"
    with a show False by (auto simp add: orphaned_alt)
  next
    assume "idle_record A t"
    then obtain b where b: "b \<in> set A" "alarm_id b = get_id t" "\<not> is_active b"
      by (auto simp add: idle_record_alt)
    from same_id_same_alarm [OF ids a(1) b(1)] a(3) b(2) have "a = b" by simp
    with a(2) b(3) show False by simp
  qed
qed

lemma extra_thread:
  assumes ok: "registry_ok m" and ids: "distinct (map alarm_id A)"
    and run: "\<forall>a\<in>set A. is_active a \<longrightarrow> is_alarm_running (alarm_id a) m"
    and t: "t \<in> set (alarm_threads m)" "orphaned A t \<or> idle_record A t"
  shows "length (filter is_active A) < length (alarm_threads m)"
proof -
  let ?ts = "alarm_threads m"
  let ?act = "alarm_id ` {a \<in> set A. is_active a}"
  from ok have dts: "distinct (map get_id ?ts)" by (simp add: registry_ok_def)
  have notin: "get_id t \<notin> ?act" by (rule not_for_active [OF ids t(2)])
  have "?act \<subseteq> get_id ` set ?ts"
  proof
    fix x assume "x \<in> ?act"
    then obtain a where a: "a \<in> set A" "is_active a" "x = alarm_id a" by auto
    with run have "is_alarm_running (alarm_id a) m" by simp
    then obtain u where "u \<in> set ?ts" "get_id u = alarm_id a"
      by (auto simp add: is_alarm_running_iff [OF ok])
    then show "x \<in> get_id ` set ?ts" unfolding a(3) by (metis imageI)
  qed
  moreover have "get_id t \<in> get_id ` set ?ts" using t(1) by (rule imageI)
  ultimately have sub: "insert (get_id t) ?act \<subseteq> get_id ` set ?ts" by simp
  have fin: "finite ?act" by simp
  have "length (filter is_active A) = length (map alarm_id (filter is_active A))" by simp
  also have "\<dots> = card (set (map alarm_id (filter is_active A)))"
    using ids by (intro distinct_card [symmetric]) (simp add: distinct_map_filter)
  also have "\<dots> = card ?act" by simp
  also have "\<dots> < card (insert (get_id t) ?act)"
    using notin fin by simp
  also have "\<dots> \<le> card (get_id ` set ?ts)"
    by (rule card_mono [OF _ sub]) simp
  also have "\<dots> = card (set (map get_id ?ts))" by simp
  also have "\<dots> = length ?ts"
    using distinct_card [OF dts] by simp
  finally show ?thesis .
qed

lemma never_settled:
  assumes ok: "registry_ok m" and ids: "distinct (map alarm_id A)"
    and t: "t \<in> set (alarm_threads m)" "orphaned A t \<or> idle_record A t"
  shows "\<not> fst (check_threads_state obeys A m)"
proof
  assume settled: "fst (check_threads_state obeys A m)"
  from check_threads_state_True(1) [OF settled]
  have "\<forall>a\<in>set A. is_active a \<longrightarrow> is_alarm_running (alarm_id a) m" by simp
  from extra_thread [OF ok ids this t] check_threads_state_True(2) [OF settled]
  show False by simp
qed

text \<open>The registry stays well formed through a call, and a stuck thread stays in it.\<close>

lemma registry_ok_stop: "registry_ok mgr \<Longrightarrow> registry_ok (snd (stop_alarm_thread obeys x mgr))"
  using registry_ok_filter [of mgr "\<lambda>t. get_id t \<noteq> x"]
  by (simp add: stop_alarm_thread_result)

lemma stop_keeps:
  assumes ok: "registry_ok mgr" and t: "t \<in> set (alarm_threads mgr)"
    and safe: "get_id t \<noteq> x \<or> (alive t \<and> \<not> obeys (thread_ref t))"
  shows "t \<in> set (alarm_threads (snd (stop_alarm_thread obeys x mgr)))"
  using t safe by (auto simp add: stop_alarm_thread_result [OF ok])

lemma registry_ok_check_one:
  assumes ok: "registry_ok mgr"
  shows "registry_ok (check_one obeys a mgr)"
proof (cases "is_active a")
  case active: True
  show ?thesis
  proof (cases "is_alarm_running (alarm_id a) mgr")
    case True
    with active ok show ?thesis by (simp add: check_one_def)
  next
    case False
    from launch_step [OF ok active False, of obeys] active False show ?thesis
      by (auto simp add: check_one_def)
  qed
next
  case False
  with ok registry_ok_stop [OF ok] show ?thesis by (simp add: check_one_def)
qed

lemma stuck_unwanted: "stuck obeys A t \<Longrightarrow> orphaned A t \<or> idle_record A t"
  by (simp add: stuck_def split: if_splits)

lemma check_one_keeps:
  assumes ok: "registry_ok mgr" and ids: "distinct (map alarm_id A)" and a: "a \<in> set A"
    and t: "t \<in> set (alarm_threads mgr)" and stuck: "stuck obeys A t"
  shows "t \<in> set (alarm_threads (check_one obeys a mgr))"
proof (cases "is_active a")
  case active: True
  have "alarm_id a \<in> alarm_id ` {a \<in> set A. is_active a}" using a active by blast
  with not_for_active [OF ids stuck_unwanted [OF stuck]]
  have other: "get_id t \<noteq> alarm_id a" by metis
  show ?thesis
  proof (cases "is_alarm_running (alarm_id a) mgr")
    case True
    with active t show ?thesis by (simp add: check_one_def)
  next
    case False
    from launch_step [OF ok active False, of obeys] obtain ts' where ts':
      "snd (set_alarm_thread obeys a mgr) = mgr\<lparr>alarm_threads := ts', next_ref := next_ref mgr + 1\<rparr>"
      "set ts' = {t \<in> set (alarm_threads mgr). get_id t \<noteq> alarm_id a} \<union> {launch (next_ref mgr) a}"
      by (elim exE conjE) (rule that)
    from ts'(2) t other have "t \<in> set ts'" by simp
    with ts'(1) active False show ?thesis by (simp add: check_one_def)
  qed
next
  case idle: False
  show ?thesis
  proof (cases "is_alarm_running (alarm_id a) mgr")
    case False
    with idle t show ?thesis by (simp add: check_one_def)
  next
    case True
    from ok have dids: "distinct (map get_id (alarm_threads mgr))" by (simp add: registry_ok_def)
    have safe: "get_id t \<noteq> alarm_id a \<or> (alive t \<and> \<not> obeys (thread_ref t))"
    proof (cases "get_id t = alarm_id a")
      case False
      then show ?thesis by simp
    next
      case same: True
      from True obtain u where u: "u \<in> set (alarm_threads mgr)" "get_id u = alarm_id a" "alive u"
        by (auto simp add: is_alarm_running_iff [OF ok])
      from unique_id [OF dids t u(1)] same u(2) have "t = u" by simp
      with u(3) stuck show ?thesis by (simp add: stuck_def)
    qed
    from stop_keeps [where obeys = obeys and x = "alarm_id a", OF ok t safe] idle True
    show ?thesis by (simp add: check_one_def)
  qed
qed

lemma registry_ok_check_alarms:
  "registry_ok mgr \<Longrightarrow> registry_ok (snd (snd (check_alarms obeys rest (pc, c, mgr))))"
proof (induction rest arbitrary: pc c mgr)
  case Nil
  then show ?case by simp
next
  case (Cons a r)
  from Cons.IH [OF registry_ok_check_one [OF Cons.prems]] show ?case
    by (simp only: check_alarms_Cons)
qed

lemma check_alarms_keeps:
  assumes "registry_ok mgr" and "distinct (map alarm_id A)" and "set rest \<subseteq> set A"
    and "t \<in> set (alarm_threads mgr)" and "stuck obeys A t"
  shows "t \<in> set (alarm_threads (snd (snd (check_alarms obeys rest (pc, c, mgr)))))"
  using assms
proof (induction rest arbitrary: pc c mgr)
  case Nil
  then show ?case by simp
next
  case (Cons a r)
  from Cons.prems have a: "a \<in> set A" and r: "set r \<subseteq> set A" by simp_all
  note ok1 = registry_ok_check_one [OF Cons.prems(1), of obeys a]
  note t1 = check_one_keeps [OF Cons.prems(1,2) a Cons.prems(4,5)]
  from Cons.IH [OF ok1 Cons.prems(2) r t1 Cons.prems(5)] show ?case
    by (simp only: check_alarms_Cons)
qed

lemma registry_ok_orphan_loop:
  "registry_ok mgr \<Longrightarrow> registry_ok (orphan_loop obeys A i mgr)"
proof (induction "length (alarm_threads mgr) - i" arbitrary: i mgr rule: less_induct)
  case less
  show ?case
  proof (cases "i < length (alarm_threads mgr)")
    case False
    with less.prems show ?thesis by (subst orphan_loop.simps) simp
  next
    case inside: True
    let ?t = "alarm_threads mgr ! i"
    let ?m' = "snd (stop_alarm_thread obeys (get_id ?t) mgr)"
    have smaller: "length (alarm_threads mgr) - (i + 1) < length (alarm_threads mgr) - i"
      using inside by simp
    have smaller': "length (alarm_threads ?m') - (i + 1) < length (alarm_threads mgr) - i"
      using inside length_stop_alarm_thread [of obeys "get_id ?t" mgr] by simp
    show ?thesis
    proof (cases "orphaned A ?t")
      case False
      with inside less.hyps [OF smaller less.prems] show ?thesis
        by (subst orphan_loop.simps) (simp add: orphaned_def)
    next
      case True
      with inside less.hyps [OF smaller' registry_ok_stop [OF less.prems]] show ?thesis
        by (subst orphan_loop.simps) (simp add: orphaned_def Let_def)
    qed
  qed
qed

lemma orphan_loop_keeps:
  assumes "registry_ok mgr" and "t \<in> set (alarm_threads mgr)" and "stuck obeys A t"
  shows "t \<in> set (alarm_threads (orphan_loop obeys A i mgr))"
  using assms
proof (induction "length (alarm_threads mgr) - i" arbitrary: i mgr rule: less_induct)
  case less
  show ?case
  proof (cases "i < length (alarm_threads mgr)")
    case False
    with less.prems show ?thesis by (subst orphan_loop.simps) simp
  next
    case inside: True
    let ?u = "alarm_threads mgr ! i"
    let ?m' = "snd (stop_alarm_thread obeys (get_id ?u) mgr)"
    have smaller: "length (alarm_threads mgr) - (i + 1) < length (alarm_threads mgr) - i"
      using inside by simp
    have smaller': "length (alarm_threads ?m') - (i + 1) < length (alarm_threads mgr) - i"
      using inside length_stop_alarm_thread [of obeys "get_id ?u" mgr] by simp
    show ?thesis
    proof (cases "orphaned A ?u")
      case False
      with inside less.hyps [OF smaller less.prems] show ?thesis
        by (subst orphan_loop.simps) (simp add: orphaned_def)
    next
      case True
      have safe: "get_id t \<noteq> get_id ?u \<or> (alive t \<and> \<not> obeys (thread_ref t))"
      proof (cases "alive t")
        case True
        with less.prems(3) show ?thesis by (simp add: stuck_def)
      next
        case False
        with less.prems(3) have "idle_record A t" by (simp add: stuck_def)
        then have known: "\<not> orphaned A t" by (auto simp add: idle_record_alt orphaned_alt)
        have "get_id t \<noteq> get_id ?u"
        proof
          assume "get_id t = get_id ?u"
          with True have "orphaned A t" by (simp add: orphaned_alt)
          with known show False by simp
        qed
        then show ?thesis by simp
      qed
      note t' = stop_keeps [where obeys = obeys and x = "get_id ?u", OF less.prems(1,2) safe]
      note ok' = registry_ok_stop [OF less.prems(1), of obeys "get_id ?u"]
      from inside True less.hyps [OF smaller' ok' t' less.prems(3)] show ?thesis
        by (subst orphan_loop.simps) (simp add: orphaned_def Let_def)
    qed
  qed
qed

lemma registry_ok_check_threads_state:
  assumes "registry_ok mgr"
  shows "registry_ok (snd (check_threads_state obeys A mgr))"
proof -
  obtain pc c m1 where r: "check_alarms obeys A (True, 0, mgr) = (pc, c, m1)"
    by (metis prod_cases3)
  from registry_ok_check_alarms [OF assms, of obeys A True 0] r have "registry_ok m1" by simp
  with registry_ok_orphan_loop [of m1 obeys A 0] r show ?thesis
    by (simp add: check_threads_state_def)
qed

lemma check_threads_state_keeps:
  assumes "registry_ok mgr" and "distinct (map alarm_id A)"
    and "t \<in> set (alarm_threads mgr)" and "stuck obeys A t"
  shows "t \<in> set (alarm_threads (snd (check_threads_state obeys A mgr)))"
proof -
  obtain pc c m1 where r: "check_alarms obeys A (True, 0, mgr) = (pc, c, m1)"
    by (metis prod_cases3)
  from registry_ok_check_alarms [OF assms(1), of obeys A True 0] r have ok1: "registry_ok m1"
    by simp
  from check_alarms_keeps [OF assms(1,2) subset_refl assms(3,4), of True 0] r
  have t1: "t \<in> set (alarm_threads m1)" by simp
  from orphan_loop_keeps [OF ok1 t1 assms(4), of 0] t1 r show ?thesis
    by (simp add: check_threads_state_def)
qed

lemma no_adjacent_none: "\<forall>x\<in>set xs. \<not> P x \<Longrightarrow> no_adjacent P xs"
  by (induction xs rule: induct_list012) simp_all


text \<open>
  C4 as stated fails, by the design of the manager, which keeps what it cannot stop. A live
  thread of the alarm 2, which is switched off, does not end within the wait: it stays
  registered, and every call returns \<^verbatim>\<open>False\<close> and leaves the registry as it is. A dead
  thread registered for that alarm is never looked at by \<^verbatim>\<open>__stop_alarm_thread\<close>, because
  \<^verbatim>\<open>is_alarm_running\<close> is false for it, and it is no orphan: the thread count stays off by
  one and every call returns \<^verbatim>\<open>False\<close>.
\<close>

theorem check_threads_state_second_call_false:
  "check_threads_state (\<lambda>_. False) [sleeper] \<lparr>alarm_threads = [launch 0 sleeper], next_ref = 1\<rparr>
     = (False, \<lparr>alarm_threads = [launch 0 sleeper], next_ref = 1\<rparr>)
   \<and> \<not> fst (check_threads_state (\<lambda>_. False) [sleeper]
             (snd (check_threads_state (\<lambda>_. False) [sleeper]
                     \<lparr>alarm_threads = [launch 0 sleeper], next_ref = 1\<rparr>)))
   \<and> check_threads_state (\<lambda>_. True) [sleeper]
        \<lparr>alarm_threads = [(launch 0 sleeper)\<lparr>alive := False\<rparr>], next_ref = 1\<rparr>
     = (False, \<lparr>alarm_threads = [(launch 0 sleeper)\<lparr>alive := False\<rparr>], next_ref = 1\<rparr>)
   \<and> \<not> fst (check_threads_state (\<lambda>_. True) [sleeper]
             (snd (check_threads_state (\<lambda>_. True) [sleeper]
                     \<lparr>alarm_threads = [(launch 0 sleeper)\<lparr>alive := False\<rparr>], next_ref = 1\<rparr>)))"
  by (simp add: mgr_eval sleeper_def stored_alarm_def is_active_iff orphaned_def)

text \<open>
  The second call also returns \<^verbatim>\<open>False\<close> from the two neighbouring orphans of C3, where
  the first call passes over one of them; this is the slip of C3 and no part of the design.
\<close>

lemma check_threads_state_adjacent_orphans:
  "\<not> fst (check_threads_state (\<lambda>_. True) []
            (snd (check_threads_state (\<lambda>_. True) []
                    \<lparr>alarm_threads = [orphan_a, orphan_b], next_ref = 2\<rparr>)))"
  by (simp add: mgr_eval orphan_a_def orphan_b_def blank_instance_def)

text \<open>
  C4, amended. Take a well-formed registry and stored alarms with distinct identities. If
  every live thread that is an orphan or belongs to an idle record ends in time when asked to
  stop, no dead thread is registered for an idle record, and the orphans stand apart, then a
  second call of \<^verbatim>\<open>check_threads_state\<close> right after the first returns \<^verbatim>\<open>True\<close> and
  changes nothing. In every other state the second call returns \<^verbatim>\<open>False\<close>.
\<close>

theorem check_threads_state_twice:
  assumes ok: "registry_ok mgr"
    and ids: "distinct (map alarm_id all_alarms)"
  shows "(one_call_settles obeys all_alarms mgr \<longrightarrow>
            check_threads_state obeys all_alarms (snd (check_threads_state obeys all_alarms mgr))
              = (True, snd (check_threads_state obeys all_alarms mgr)))
       \<and> (\<not> one_call_settles obeys all_alarms mgr \<longrightarrow>
            \<not> fst (check_threads_state obeys all_alarms
                     (snd (check_threads_state obeys all_alarms mgr))))"
proof -
  let ?A = all_alarms
  let ?n = "length (filter is_active ?A)"
  let ?first = "snd (check_threads_state obeys ?A mgr)"
  have okf: "registry_ok ?first"
    by (rule registry_ok_check_threads_state [OF ok])
  have stays: "\<not> fst (check_threads_state obeys ?A ?first)"
    if t: "t \<in> set (alarm_threads mgr)" "stuck obeys ?A t" for t
  proof -
    from check_threads_state_keeps [OF ok ids t] have "t \<in> set (alarm_threads ?first)" .
    from never_settled [OF okf ids this stuck_unwanted [OF t(2)]] show ?thesis .
  qed
  have rest: "(orphans_apart ?A (alarm_threads mgr) \<longrightarrow>
                 check_threads_state obeys ?A ?first = (True, ?first))
            \<and> (\<not> orphans_apart ?A (alarm_threads mgr) \<longrightarrow>
                 \<not> fst (check_threads_state obeys ?A ?first))"
    if coop: "\<forall>t\<in>set (alarm_threads mgr).
          alive t \<and> (orphaned ?A t \<or> idle_record ?A t) \<longrightarrow> obeys (thread_ref t)"
      and dead: "\<forall>t\<in>set (alarm_threads mgr). idle_record ?A t \<longrightarrow> alive t"
  proof -
    have inv: "phase_inv obeys ?A mgr"
      unfolding phase_inv_def
    proof (intro conjI ballI impI)
      show "registry_ok mgr" by (rule ok)
    next
      fix t
      assume t: "t \<in> set (alarm_threads mgr)"
        and h: "alive t \<and> (\<forall>a\<in>set ?A. alarm_id a = get_id t \<longrightarrow> \<not> is_active a)"
      have "orphaned ?A t \<or> idle_record ?A t"
        using h by (auto simp add: orphaned_alt idle_record_alt)
      with coop t h show "obeys (thread_ref t)" by blast
    next
      fix t a
      assume t: "t \<in> set (alarm_threads mgr)" and h: "\<not> alive t"
        and a: "a \<in> set ?A" "alarm_id a = get_id t"
      show "is_active a"
      proof (rule ccontr)
        assume "\<not> is_active a"
        with a have "idle_record ?A t" by (auto simp add: idle_record_alt)
        with dead t h show False by blast
      qed
    qed
    from phase1 [OF inv ids subset_refl ids, of True 0]
    obtain pc1 m1 where p:
      "check_alarms obeys ?A (True, 0, mgr) = (pc1, 0 + ?n, m1)"
      "phase_inv obeys ?A m1"
      "\<forall>t. get_id t \<notin> alarm_id ` set ?A \<longrightarrow>
          (t \<in> set (alarm_threads m1) \<longleftrightarrow> t \<in> set (alarm_threads mgr))"
      "\<forall>a\<in>set ?A. is_active a \<longrightarrow> (\<exists>t\<in>set (alarm_threads m1). get_id t = alarm_id a \<and> alive t)"
      "\<forall>a\<in>set ?A. \<not> is_active a \<longrightarrow> (\<forall>t\<in>set (alarm_threads m1). get_id t \<noteq> alarm_id a)"
      "orphans_apart ?A (alarm_threads m1) = orphans_apart ?A (alarm_threads mgr)"
      by (elim exE conjE) (rule that)
    let ?ts1 = "alarm_threads m1"
    define m2 where "m2 = (if length ?ts1 \<noteq> ?n then orphan_loop obeys ?A 0 m1 else m1)"
    have first: "?first = m2"
      using p(1) by (simp add: check_threads_state_def m2_def)
    from p(2) have ok1: "registry_ok m1" by (simp add: phase_inv_def)
    have no_idle: "\<not> idle_record ?A t" if "t \<in> set ?ts1" for t
    proof
      assume "idle_record ?A t"
      then obtain a where a: "a \<in> set ?A" "alarm_id a = get_id t" "\<not> is_active a"
        by (auto simp add: idle_record_alt)
      from p(5) a(1,3) that have "get_id t \<noteq> alarm_id a" by blast
      with a(2) show False by simp
    qed
    then have "filter (\<lambda>t. \<not> idle_record ?A t) ?ts1 = ?ts1"
      by (simp add: filter_id_conv)
    with p(6) have apart1: "no_adjacent (orphaned ?A) ?ts1 = orphans_apart ?A (alarm_threads mgr)"
      by (simp add: orphans_apart_def)
    have stops1: "\<forall>t\<in>set (drop 0 ?ts1). orphaned ?A t \<and> alive t \<longrightarrow> obeys (thread_ref t)"
    proof (intro ballI impI)
      fix t assume t: "t \<in> set (drop 0 ?ts1)" "orphaned ?A t \<and> alive t"
      then have "\<forall>a\<in>set ?A. alarm_id a = get_id t \<longrightarrow> \<not> is_active a"
        by (simp add: orphaned_alt)
      with p(2) t show "obeys (thread_ref t)" by (simp add: phase_inv_def)
    qed
    have loop: "orphan_loop obeys ?A 0 m1 = m1\<lparr>alarm_threads := sweep (orphaned ?A) ?ts1\<rparr>"
      using orphan_loop_sweep [OF ok1 stops1] by simp
    have run1: "\<forall>a\<in>set ?A. is_active a \<longrightarrow> is_alarm_running (alarm_id a) m1"
      using p(4) by (simp add: is_alarm_running_iff [OF ok1])
    have settled: "check_threads_state obeys ?A m2 = (True, m2)"
      if apart: "orphans_apart ?A (alarm_threads mgr)"
    proof -
      have stable: "(\<forall>a\<in>set ?A. is_active a \<longleftrightarrow> is_alarm_running (alarm_id a) m2)
          \<and> length (alarm_threads m2) = ?n"
      proof (cases "length ?ts1 \<noteq> ?n")
        case False
        then have m2: "m2 = m1" by (simp add: m2_def)
        have "\<forall>a\<in>set ?A. is_active a \<longleftrightarrow> is_alarm_running (alarm_id a) m1"
          using p(4,5) unfolding is_alarm_running_iff [OF ok1] by blast
        with False show ?thesis unfolding m2 by simp
      next
        case True
        let ?ts2 = "filter (\<lambda>t. \<not> orphaned ?A t) ?ts1"
        from apart apart1 have "no_adjacent (orphaned ?A) ?ts1" by simp
        then have "sweep (orphaned ?A) ?ts1 = ?ts2" by (rule sweep_filter)
        with True loop have m2: "m2 = m1\<lparr>alarm_threads := ?ts2\<rparr>"
          by (simp add: m2_def)
        have ok2: "registry_ok m2"
          unfolding m2 by (rule registry_ok_filter [OF ok1])
        have act: "\<exists>t\<in>set ?ts2. get_id t = alarm_id a \<and> alive t" if "a \<in> set ?A" "is_active a" for a
        proof -
          from p(4) that obtain t where t: "t \<in> set ?ts1" "get_id t = alarm_id a" "alive t" by blast
          with that(1) have "\<not> orphaned ?A t" by (auto simp add: orphaned_alt)
          with t show ?thesis by auto
        qed
        have inact: "\<forall>t\<in>set ?ts2. get_id t \<noteq> alarm_id a" if "a \<in> set ?A" "\<not> is_active a" for a
          using p(5) that by simp
        have run: "\<forall>a\<in>set ?A. is_active a \<longleftrightarrow> is_alarm_running (alarm_id a) m2"
          unfolding is_alarm_running_iff [OF ok2] unfolding m2 using act inact by auto
        have covers: "get_id ` set ?ts2 = alarm_id ` {a \<in> set ?A. is_active a}"
        proof (intro set_eqI iffI)
          fix x assume "x \<in> get_id ` set ?ts2"
          then obtain t where t: "t \<in> set ?ts1" "\<not> orphaned ?A t" "x = get_id t" by auto
          then obtain a where a: "a \<in> set ?A" "alarm_id a = get_id t"
            by (auto simp add: orphaned_alt)
          with p(5) t(1) have "is_active a" by metis
          with a(1) have "a \<in> {a \<in> set ?A. is_active a}" by simp
          then have "alarm_id a \<in> alarm_id ` {a \<in> set ?A. is_active a}" by (rule imageI)
          then show "x \<in> alarm_id ` {a \<in> set ?A. is_active a}" unfolding t(3) a(2) .
        next
          fix x assume "x \<in> alarm_id ` {a \<in> set ?A. is_active a}"
          then obtain a where a: "a \<in> set ?A" "is_active a" "x = alarm_id a" by auto
          from act [OF a(1,2)] a(3) show "x \<in> get_id ` set ?ts2" by force
        qed
        have d2: "distinct (map get_id ?ts2)"
          using ok1 by (simp add: registry_ok_def distinct_map_filter)
        have "length ?ts2 = ?n"
          by (rule active_count [OF ids d2 covers])
        with run show ?thesis unfolding m2 by simp
      qed
      then have "check_alarms obeys ?A (True, 0, m2) = (True, 0 + ?n, m2)"
        by (intro check_alarms_stable) simp
      with stable show ?thesis
        by (simp add: check_threads_state_def)
    qed
    have unsettled: "\<not> fst (check_threads_state obeys ?A m2)"
      if apart: "\<not> orphans_apart ?A (alarm_threads mgr)"
    proof -
      from apart apart1 have "\<not> no_adjacent (orphaned ?A) ?ts1" by simp
      then have "\<not> (\<forall>x\<in>set (sweep (orphaned ?A) ?ts1). \<not> orphaned ?A x)"
        using sweep_clean_iff [of "orphaned ?A" ?ts1] by blast
      then obtain u where u: "u \<in> set (sweep (orphaned ?A) ?ts1)" "orphaned ?A u" by blast
      from u(1) sweep_subset [of "orphaned ?A" ?ts1] have "u \<in> set ?ts1" by blast
      from extra_thread [OF ok1 ids run1 this] u(2) have "?n < length ?ts1" by simp
      with loop have "m2 = m1\<lparr>alarm_threads := sweep (orphaned ?A) ?ts1\<rparr>"
        by (simp add: m2_def)
      with u(1) have mem: "u \<in> set (alarm_threads m2)" by simp
      from okf have ok2: "registry_ok m2" unfolding first .
      from never_settled [OF ok2 ids mem] u(2) show ?thesis by simp
    qed
    from settled unsettled show ?thesis unfolding first by blast
  qed
  show ?thesis
  proof (intro conjI impI)
    assume "one_call_settles obeys ?A mgr"
    then show "check_threads_state obeys ?A ?first = (True, ?first)"
      using rest by (simp add: one_call_settles_def)
  next
    assume no: "\<not> one_call_settles obeys ?A mgr"
    show "\<not> fst (check_threads_state obeys ?A ?first)"
    proof (cases "\<exists>t\<in>set (alarm_threads mgr). stuck obeys ?A t")
      case True
      then show ?thesis using stays by blast
    next
      case False
      then have none: "\<not> stuck obeys ?A t" if "t \<in> set (alarm_threads mgr)" for t
        using that by blast
      have coop: "\<forall>t\<in>set (alarm_threads mgr).
          alive t \<and> (orphaned ?A t \<or> idle_record ?A t) \<longrightarrow> obeys (thread_ref t)"
      proof (intro ballI impI)
        fix t assume "t \<in> set (alarm_threads mgr)"
          and "alive t \<and> (orphaned ?A t \<or> idle_record ?A t)"
        with none [of t] show "obeys (thread_ref t)"
          by (auto simp add: stuck_def split: if_splits)
      qed
      have dead: "\<forall>t\<in>set (alarm_threads mgr). idle_record ?A t \<longrightarrow> alive t"
      proof (intro ballI impI)
        fix t assume "t \<in> set (alarm_threads mgr)" and "idle_record ?A t"
        with none [of t] show "alive t" by (auto simp add: stuck_def split: if_splits)
      qed
      from no coop dead have "\<not> orphans_apart ?A (alarm_threads mgr)"
        by (simp add: one_call_settles_def)
      with rest [OF coop dead] show ?thesis by blast
    qed
  qed
qed

text \<open>
  The theorem at a registry with two orphans that are no neighbours, a thread of the active
  alarm 1 that would not end if it were asked to, and a thread of the idle alarm 2: the first
  call removes the two orphans and the thread of the alarm 2, and the second returns
  \<^verbatim>\<open>True\<close>.
\<close>

theorem check_threads_state_twice_witness:
  "check_threads_state (\<lambda>r. r \<noteq> 2) [stored_alarm, sleeper]
       \<lparr>alarm_threads = [orphan_a, launch 2 stored_alarm, orphan_b, launch 3 sleeper],
        next_ref = 4\<rparr>
     = (False, \<lparr>alarm_threads = [launch 2 stored_alarm], next_ref = 4\<rparr>)
   \<and> check_threads_state (\<lambda>r. r \<noteq> 2) [stored_alarm, sleeper]
       \<lparr>alarm_threads = [launch 2 stored_alarm], next_ref = 4\<rparr>
     = (True, \<lparr>alarm_threads = [launch 2 stored_alarm], next_ref = 4\<rparr>)"
proof -
  let ?mgr = "\<lparr>alarm_threads = [orphan_a, launch 2 stored_alarm, orphan_b, launch 3 sleeper],
        next_ref = 4\<rparr>"
  have first: "check_threads_state (\<lambda>r. r \<noteq> 2) [stored_alarm, sleeper] ?mgr
     = (False, \<lparr>alarm_threads = [launch 2 stored_alarm], next_ref = 4\<rparr>)"
    by (simp add: mgr_eval set_alarm_thread_def orphan_a_def orphan_b_def sleeper_def
        stored_alarm_def blank_instance_def is_active_iff any_day_enabled_iff)
  have settles: "one_call_settles (\<lambda>r. r \<noteq> 2) [stored_alarm, sleeper] ?mgr"
    by (simp add: one_call_settles_def orphans_apart_def orphaned_def idle_record_def
        orphan_a_def orphan_b_def launch_def get_id_def sleeper_def stored_alarm_def
        blank_instance_def is_active_iff any_day_enabled_iff)
  have "check_threads_state (\<lambda>r. r \<noteq> 2) [stored_alarm, sleeper]
          (snd (check_threads_state (\<lambda>r. r \<noteq> 2) [stored_alarm, sleeper] ?mgr))
        = (True, snd (check_threads_state (\<lambda>r. r \<noteq> 2) [stored_alarm, sleeper] ?mgr))"
    using check_threads_state_twice [of ?mgr "[stored_alarm, sleeper]" "\<lambda>r. r \<noteq> 2"] settles
    by (simp add: registry_ok_def orphan_a_def orphan_b_def launch_def get_id_def sleeper_def
        stored_alarm_def blank_instance_def)
  with first show ?thesis by simp
qed


end
